theory Spec2Isabelle
  imports Main "HOL-Library.Word" "HOL-Library.AList"
begin

section \<open>Data model of the copy-on-write trie\<close>

text \<open>
  The functions verified here are those of \<^verbatim>\<open>src/trie.cpp\<close>. The header
  \<^verbatim>\<open>trie.h\<close> that declares the classes is not among the sources, so the
  types below are modelled from the specification (section 3, "Data model").
\<close>

text \<open>The C++ types a payload can have: the four that \<^verbatim>\<open>CreateNodeWithNewChildren\<close> names in
  its casts, and any other type, numbered.\<close>

datatype type_tag = uint32_t | uint64_t | std_string | int_t | other_t nat

text \<open>Modelled from the spec: the member \<^verbatim>\<open>value_\<close> of \<^verbatim>\<open>TrieNodeWithValue<T>\<close>, declared in the
  missing header \<^verbatim>\<open>trie.h\<close>: a value together with the C++ type \<open>T\<close> it was stored under,
  which is what \<^verbatim>\<open>dynamic_cast\<close> tests. The class template is open, so next to the four
  types of the casts there is \<open>V_unlisted i r\<close>, a value of the type numbered \<open>i\<close> with
  representation \<open>r\<close>. An \<^verbatim>\<open>int\<close> is kept as its 32 bits.\<close>

datatype payload =
    V_uint32 "32 word"
  | V_uint64 "64 word"
  | V_string string
  | V_int "32 word"
  | V_unlisted nat nat

fun type_of :: "payload \<Rightarrow> type_tag" where
  "type_of (V_uint32 _) = uint32_t"
| "type_of (V_uint64 _) = uint64_t"
| "type_of (V_string _) = std_string"
| "type_of (V_int _) = int_t"
| "type_of (V_unlisted i _) = other_t i"

text \<open>Modelled from the spec: the classes \<^verbatim>\<open>TrieNode\<close> and \<^verbatim>\<open>TrieNodeWithValue<T>\<close>, declared in
  the missing header \<^verbatim>\<open>trie.h\<close>. The child map
  \<^verbatim>\<open>std::map<char, std::shared_ptr<const TrieNode>>\<close> is an association list read with
  \<^const>\<open>map_of\<close>; the operations never observe the order of its entries, and every
  property below also holds of lists that repeat a key, which no \<^verbatim>\<open>std::map\<close> does. Nodes
  are immutable after construction, so a shared handle is modelled by the node it points
  to (handle identity is modelled separately, in the store model further down). A null
  handle is \<open>None\<close>; the operations never put a null handle into a child map, and the model
  has none there.\<close>

datatype node =
    TrieNode (children: "(char \<times> node) list")
  | TrieNodeWithValue (children: "(char \<times> node) list") (node_value: payload)

fun is_value_node :: "node \<Rightarrow> bool" where
  "is_value_node (TrieNode _) = False"
| "is_value_node (TrieNodeWithValue _ _) = True"

text \<open>Modelled from the spec: the class \<^verbatim>\<open>Trie\<close>, declared in the missing header \<^verbatim>\<open>trie.h\<close>:
  a handle with an optional root. The C++ members \<^verbatim>\<open>children_\<close>, \<^verbatim>\<open>value_\<close>,
  \<^verbatim>\<open>is_value_node_\<close> and \<^verbatim>\<open>root_\<close> lose their trailing underscore, which an Isabelle name
  cannot end with.\<close>

datatype trie = Trie (trie_root: "node option")

definition empty_trie :: trie where
  "empty_trie = Trie None"

text \<open>\<^verbatim>\<open>dynamic_cast<const TrieNodeWithValue<T> *>(node)\<close>: succeeds exactly on a value
  node whose payload has type \<open>T\<close>, and then gives access to that payload.\<close>

fun dynamic_cast :: "type_tag \<Rightarrow> node \<Rightarrow> payload option" where
  "dynamic_cast T (TrieNode _) = None"
| "dynamic_cast T (TrieNodeWithValue _ v) = (if type_of v = T then Some v else None)"

section \<open>The operations of trie.cpp\<close>

text \<open>The loop of \<^verbatim>\<open>Trie::Get\<close> (lines 14-20): follow the key byte by byte; \<open>None\<close> is
  the early \<^verbatim>\<open>return nullptr\<close> on a missing child.\<close>

fun walk :: "node \<Rightarrow> string \<Rightarrow> node option" where
  "walk current [] = Some current"
| "walk current (c # key) =
     (case map_of (children current) c of
        None \<Rightarrow> None
      | Some it \<Rightarrow> walk it key)"

text \<open>\<^verbatim>\<open>Trie::Get<T>\<close> (lines 5-34). The result \<open>None\<close> is the null pointer.\<close>

definition Get :: "type_tag \<Rightarrow> trie \<Rightarrow> string \<Rightarrow> payload option" where
  "Get T t key =
     (case trie_root t of
        None \<Rightarrow> None
      | Some root \<Rightarrow>
          (case walk root key of
             None \<Rightarrow> None
           | Some current \<Rightarrow>
               if \<not> is_value_node current then None
               else (case dynamic_cast T current of
                       None \<Rightarrow> None
                     | Some v \<Rightarrow> Some v)))"

text \<open>\<^verbatim>\<open>CreateNodeWithNewChildren\<close> (lines 37-64), with its ladder of four casts and the
  final fallback that builds a plain node.\<close>

definition CreateNodeWithNewChildren :: "node option \<Rightarrow> (char \<times> node) list \<Rightarrow> node" where
  "CreateNodeWithNewChildren node new_children =
     (case node of
        None \<Rightarrow> TrieNode new_children
      | Some n \<Rightarrow>
          if \<not> is_value_node n then TrieNode new_children
          else (case dynamic_cast uint32_t n of
             Some v \<Rightarrow> TrieNodeWithValue new_children v
           | None \<Rightarrow> (case dynamic_cast uint64_t n of
             Some v \<Rightarrow> TrieNodeWithValue new_children v
           | None \<Rightarrow> (case dynamic_cast std_string n of
             Some v \<Rightarrow> TrieNodeWithValue new_children v
           | None \<Rightarrow> (case dynamic_cast int_t n of
             Some v \<Rightarrow> TrieNodeWithValue new_children v
           | None \<Rightarrow> TrieNode new_children)))))"

text \<open>\<^verbatim>\<open>PutHelper<T>\<close> (lines 67-109). \<^verbatim>\<open>new_children[first_char] = child\<close> is
  \<^const>\<open>AList.update\<close>.\<close>

fun PutHelper :: "node option \<Rightarrow> string \<Rightarrow> payload \<Rightarrow> node" where
  "PutHelper node [] v =
     (case node of
        None \<Rightarrow> TrieNodeWithValue [] v
      | Some n \<Rightarrow> TrieNodeWithValue (children n) v)"
| "PutHelper node (first_char # remaining) v =
     (let new_children = (case node of None \<Rightarrow> [] | Some n \<Rightarrow> children n);
          child = (case map_of new_children first_char of
                     Some it \<Rightarrow> PutHelper (Some it) remaining v
                   | None \<Rightarrow> PutHelper None remaining v)
      in CreateNodeWithNewChildren node (AList.update first_char child new_children))"

definition Put :: "trie \<Rightarrow> string \<Rightarrow> payload \<Rightarrow> trie" where
  "Put t key v = Trie (Some (PutHelper (trie_root t) key v))"

text \<open>\<^verbatim>\<open>RemoveHelper\<close> (lines 118-170). The loop of lines 150-154 copies every entry
  whose byte is not \<open>first_char\<close> into a fresh map, which is a \<^const>\<open>filter\<close>.\<close>

fun RemoveHelper :: "node option \<Rightarrow> string \<Rightarrow> node option" where
  "RemoveHelper None key = None"
| "RemoveHelper (Some n) [] =
     (if children n \<noteq> [] then Some (TrieNode (children n)) else None)"
| "RemoveHelper (Some n) (first_char # remaining) =
     (case map_of (children n) first_char of
        None \<Rightarrow> Some n
      | Some it \<Rightarrow>
          (let new_child = RemoveHelper (Some it) remaining;
               others = filter (\<lambda>(ch, child). ch \<noteq> first_char) (children n);
               new_children = (case new_child of
                                 Some c \<Rightarrow> AList.update first_char c others
                               | None \<Rightarrow> others)
           in if \<not> is_value_node n \<and> new_children = [] then None
              else Some (CreateNodeWithNewChildren (Some n) new_children)))"

definition Remove :: "trie \<Rightarrow> string \<Rightarrow> trie" where
  "Remove t key = Trie (RemoveHelper (trie_root t) key)"

section \<open>The operations with a record of the fallback branch\<close>

text \<open>The last \<^verbatim>\<open>return\<close> of \<^verbatim>\<open>CreateNodeWithNewChildren\<close> (line 63) is reached exactly when
  the node is not null, is a value node, and all four casts of the ladder fail.\<close>

definition fallback_taken :: "node option \<Rightarrow> bool" where
  "fallback_taken node =
     (case node of
        None \<Rightarrow> False
      | Some n \<Rightarrow>
          if \<not> is_value_node n then False
          else dynamic_cast uint32_t n = None \<and> dynamic_cast uint64_t n = None
               \<and> dynamic_cast std_string n = None \<and> dynamic_cast int_t n = None)"

text \<open>\<^verbatim>\<open>PutHelper\<close> and \<^verbatim>\<open>RemoveHelper\<close> once more, line by line as above, returning next to
  their result whether some call of \<^verbatim>\<open>CreateNodeWithNewChildren\<close> made during the run
  left through line 63. Lemmas \<open>fst_PutHelper_traced\<close> and \<open>fst_RemoveHelper_traced\<close> show
  that the results are those of the functions above.\<close>

fun PutHelper_traced :: "node option \<Rightarrow> string \<Rightarrow> payload \<Rightarrow> node \<times> bool" where
  "PutHelper_traced node [] v =
     (case node of
        None \<Rightarrow> (TrieNodeWithValue [] v, False)
      | Some n \<Rightarrow> (TrieNodeWithValue (children n) v, False))"
| "PutHelper_traced node (first_char # remaining) v =
     (let new_children = (case node of None \<Rightarrow> [] | Some n \<Rightarrow> children n);
          (child, below) = (case map_of new_children first_char of
                              Some it \<Rightarrow> PutHelper_traced (Some it) remaining v
                            | None \<Rightarrow> PutHelper_traced None remaining v)
      in (CreateNodeWithNewChildren node (AList.update first_char child new_children),
          below \<or> fallback_taken node))"

fun RemoveHelper_traced :: "node option \<Rightarrow> string \<Rightarrow> node option \<times> bool" where
  "RemoveHelper_traced None key = (None, False)"
| "RemoveHelper_traced (Some n) [] =
     (if children n \<noteq> [] then (Some (TrieNode (children n)), False) else (None, False))"
| "RemoveHelper_traced (Some n) (first_char # remaining) =
     (case map_of (children n) first_char of
        None \<Rightarrow> (Some n, False)
      | Some it \<Rightarrow>
          (let (new_child, below) = RemoveHelper_traced (Some it) remaining;
               others = filter (\<lambda>(ch, child). ch \<noteq> first_char) (children n);
               new_children = (case new_child of
                                 Some c \<Rightarrow> AList.update first_char c others
                               | None \<Rightarrow> others)
           in if \<not> is_value_node n \<and> new_children = [] then (None, below)
              else (Some (CreateNodeWithNewChildren (Some n) new_children),
                    below \<or> fallback_taken (Some n))))"

section \<open>The operations on an explicit store of nodes\<close>

text \<open>
  Structural sharing is a statement about handles, so the operations are modelled a second
  time with the nodes in a store. A \<^verbatim>\<open>std::shared_ptr<const TrieNode>\<close> is an address or
  null (\<open>None\<close>); a cell holds the child map, from bytes to addresses, and the payload of
  a value node. \<^verbatim>\<open>std::make_shared\<close> of a node writes the first address never used and
  returns it, so \<open>allocated\<close> counts the nodes created so far and no cell is written twice.
  Lemmas \<open>PutHelper_st_refines\<close>, \<open>RemoveHelper_st_props\<close> and \<open>Get_st_refines\<close> relate this
  model to the functions on trees above.
\<close>

type_synonym addr = nat

datatype cell =
    Cell_TrieNode (cell_children: "(char \<times> addr) list")
  | Cell_TrieNodeWithValue (cell_children: "(char \<times> addr) list") (cell_value: payload)

fun cell_is_value_node :: "cell \<Rightarrow> bool" where
  "cell_is_value_node (Cell_TrieNode _) = False"
| "cell_is_value_node (Cell_TrieNodeWithValue _ _) = True"

fun cell_dynamic_cast :: "type_tag \<Rightarrow> cell \<Rightarrow> payload option" where
  "cell_dynamic_cast T (Cell_TrieNode _) = None"
| "cell_dynamic_cast T (Cell_TrieNodeWithValue _ v) = (if type_of v = T then Some v else None)"

record store =
  cells :: "addr \<Rightarrow> cell"
  allocated :: nat

definition empty_store :: store where
  "empty_store = \<lparr>cells = (\<lambda>a. Cell_TrieNode []), allocated = 0\<rparr>"

definition make_shared :: "cell \<Rightarrow> store \<Rightarrow> addr \<times> store" where
  "make_shared n s =
     (allocated s, s\<lparr>cells := (cells s)(allocated s := n), allocated := Suc (allocated s)\<rparr>)"

text \<open>\<^verbatim>\<open>CreateNodeWithNewChildren\<close> (lines 37-64): every branch allocates one node.\<close>

definition CreateNodeWithNewChildren_st ::
  "addr option \<Rightarrow> (char \<times> addr) list \<Rightarrow> store \<Rightarrow> addr \<times> store" where
  "CreateNodeWithNewChildren_st node new_children s =
     (case node of
        None \<Rightarrow> make_shared (Cell_TrieNode new_children) s
      | Some a \<Rightarrow>
          if \<not> cell_is_value_node (cells s a) then make_shared (Cell_TrieNode new_children) s
          else (case cell_dynamic_cast uint32_t (cells s a) of
             Some v \<Rightarrow> make_shared (Cell_TrieNodeWithValue new_children v) s
           | None \<Rightarrow> (case cell_dynamic_cast uint64_t (cells s a) of
             Some v \<Rightarrow> make_shared (Cell_TrieNodeWithValue new_children v) s
           | None \<Rightarrow> (case cell_dynamic_cast std_string (cells s a) of
             Some v \<Rightarrow> make_shared (Cell_TrieNodeWithValue new_children v) s
           | None \<Rightarrow> (case cell_dynamic_cast int_t (cells s a) of
             Some v \<Rightarrow> make_shared (Cell_TrieNodeWithValue new_children v) s
           | None \<Rightarrow> make_shared (Cell_TrieNode new_children) s)))))"

text \<open>\<^verbatim>\<open>PutHelper<T>\<close> (lines 67-109). The child map of the old node is copied before the
  recursive call (line 91), the new node is built after it (line 108), in the store that
  the recursive call returns.\<close>

fun PutHelper_st :: "addr option \<Rightarrow> string \<Rightarrow> payload \<Rightarrow> store \<Rightarrow> addr \<times> store" where
  "PutHelper_st node [] v s =
     (case node of
        None \<Rightarrow> make_shared (Cell_TrieNodeWithValue [] v) s
      | Some a \<Rightarrow> make_shared (Cell_TrieNodeWithValue (cell_children (cells s a)) v) s)"
| "PutHelper_st node (first_char # remaining) v s =
     (let new_children = (case node of None \<Rightarrow> [] | Some a \<Rightarrow> cell_children (cells s a));
          (child, s1) = (case map_of new_children first_char of
                           Some it \<Rightarrow> PutHelper_st (Some it) remaining v s
                         | None \<Rightarrow> PutHelper_st None remaining v s)
      in CreateNodeWithNewChildren_st node (AList.update first_char child new_children) s1)"

text \<open>\<^verbatim>\<open>Trie::Put\<close> (lines 111-115) on a root handle.\<close>

definition Put_st :: "addr option \<Rightarrow> string \<Rightarrow> payload \<Rightarrow> store \<Rightarrow> addr option \<times> store" where
  "Put_st root key v s = (let (new_root, s1) = PutHelper_st root key v s in (Some new_root, s1))"

text \<open>\<^verbatim>\<open>RemoveHelper\<close> and \<^verbatim>\<open>Trie::Remove\<close> (lines 118-175). Line 127 allocates a node, line
  140 returns the handle it was given, and the child map and the flag of the old node are
  read after the recursive call (lines 150 and 163).\<close>

fun RemoveHelper_st :: "addr option \<Rightarrow> string \<Rightarrow> store \<Rightarrow> addr option \<times> store" where
  "RemoveHelper_st None key s = (None, s)"
| "RemoveHelper_st (Some a) [] s =
     (if cell_children (cells s a) \<noteq> []
      then (let (r, s1) = make_shared (Cell_TrieNode (cell_children (cells s a))) s
            in (Some r, s1))
      else (None, s))"
| "RemoveHelper_st (Some a) (first_char # remaining) s =
     (case map_of (cell_children (cells s a)) first_char of
        None \<Rightarrow> (Some a, s)
      | Some it \<Rightarrow>
          (let (new_child, s1) = RemoveHelper_st (Some it) remaining s;
               others = filter (\<lambda>(ch, child). ch \<noteq> first_char) (cell_children (cells s1 a));
               new_children = (case new_child of
                                 Some c \<Rightarrow> AList.update first_char c others
                               | None \<Rightarrow> others)
           in if \<not> cell_is_value_node (cells s1 a) \<and> new_children = [] then (None, s1)
              else (let (r, s2) = CreateNodeWithNewChildren_st (Some a) new_children s1
                    in (Some r, s2))))"

definition Remove_st :: "addr option \<Rightarrow> string \<Rightarrow> store \<Rightarrow> addr option \<times> store" where
  "Remove_st root key s = RemoveHelper_st root key s"

text \<open>The loop of \<^verbatim>\<open>Trie::Get\<close> and \<^verbatim>\<open>Trie::Get\<close> itself (lines 5-34).\<close>

fun walk_st :: "store \<Rightarrow> addr \<Rightarrow> string \<Rightarrow> addr option" where
  "walk_st s current [] = Some current"
| "walk_st s current (c # key) =
     (case map_of (cell_children (cells s current)) c of
        None \<Rightarrow> None
      | Some it \<Rightarrow> walk_st s it key)"

definition Get_st :: "type_tag \<Rightarrow> store \<Rightarrow> addr option \<Rightarrow> string \<Rightarrow> payload option" where
  "Get_st T s root key =
     (case root of
        None \<Rightarrow> None
      | Some r \<Rightarrow>
          (case walk_st s r key of
             None \<Rightarrow> None
           | Some current \<Rightarrow>
               if \<not> cell_is_value_node (cells s current) then None
               else (case cell_dynamic_cast T (cells s current) of
                       None \<Rightarrow> None
                     | Some v \<Rightarrow> Some v)))"

section \<open>The test harness\<close>

text \<open>
  The macros of the test header (\<^verbatim>\<open>src/unnamed/part_000\<close>). A test function is modelled by
  the statements it executes, in order: the two assertion macros, a \<^verbatim>\<open>throw\<close> of a
  \<^verbatim>\<open>std::exception\<close> with its \<^verbatim>\<open>what()\<close> text, a \<^verbatim>\<open>throw\<close> of anything else, and any other
  statement. An assertion carries the text of its arguments and their values; the values
  compared by \<^verbatim>\<open>ASSERT_EQ\<close> are given as printed. The two output streams are lists of the
  lines written, one constructor for each line the macros can print.
\<close>

datatype stmt =
    ASSERT_TRUE string bool
  | ASSERT_EQ string string string string
  | Throw_exception string
  | Throw_unknown
  | Statement

datatype line =
    Failure_ASSERT_TRUE string
  | Failure_ASSERT_EQ string string string string
  | RUN string
  | OK string
  | FAILED_exception string string
  | FAILED_unknown string
  | PASSED_tests int
  | FAILED_tests int

datatype completion = Returned | Threw_exception string | Threw_unknown

text \<open>Running a test function: a failed assertion writes its line to \<^verbatim>\<open>std::cerr\<close> and
  executes \<^verbatim>\<open>return\<close> (lines 36-57); the function then has returned like any other.\<close>

fun run_func :: "stmt list \<Rightarrow> line list \<Rightarrow> completion \<times> line list" where
  "run_func [] err = (Returned, err)"
| "run_func (ASSERT_TRUE text cond # rest) err =
     (if \<not> cond then (Returned, err @ [Failure_ASSERT_TRUE text])
      else run_func rest err)"
| "run_func (ASSERT_EQ ltext rtext l r # rest) err =
     (if \<not> (l = r) then (Returned, err @ [Failure_ASSERT_EQ ltext rtext l r])
      else run_func rest err)"
| "run_func (Throw_exception what # rest) err = (Threw_exception what, err)"
| "run_func (Throw_unknown # rest) err = (Threw_unknown, err)"
| "run_func (Statement # rest) err = run_func rest err"

record TestCase =
  name :: string
  func :: "stmt list"

record runner =
  passed :: int
  failed :: int
  cout :: "line list"
  cerr :: "line list"

text \<open>The loop of \<^verbatim>\<open>RUN_ALL_TESTS\<close> (lines 63-78), with its \<^verbatim>\<open>try\<close> block and two handlers.\<close>

fun run_tests :: "TestCase list \<Rightarrow> runner \<Rightarrow> runner" where
  "run_tests [] s = s"
| "run_tests (t # tests) s =
     (let s1 = s\<lparr>cout := cout s @ [RUN (name t)]\<rparr>;
          (c, err) = run_func (func t) (cerr s1);
          s2 = s1\<lparr>cerr := err\<rparr>
      in case c of
           Returned \<Rightarrow>
             run_tests tests (s2\<lparr>cout := cout s2 @ [OK (name t)], passed := passed s2 + 1\<rparr>)
         | Threw_exception what \<Rightarrow>
             run_tests tests
               (s2\<lparr>cerr := cerr s2 @ [FAILED_exception (name t) what], failed := failed s2 + 1\<rparr>)
         | Threw_unknown \<Rightarrow>
             run_tests tests
               (s2\<lparr>cerr := cerr s2 @ [FAILED_unknown (name t)], failed := failed s2 + 1\<rparr>))"

text \<open>\<^verbatim>\<open>main\<close> as \<^verbatim>\<open>RUN_ALL_TESTS\<close> defines it (lines 59-84): the value returned, which is
  the exit status, and the final state of the counters and streams.\<close>

definition RUN_ALL_TESTS :: "TestCase list \<Rightarrow> int \<times> runner" where
  "RUN_ALL_TESTS tests =
     (let s = run_tests tests \<lparr>passed = 0, failed = 0, cout = [], cerr = []\<rparr>;
          s1 = s\<lparr>cout := cout s @ [PASSED_tests (passed s)]\<rparr>;
          s2 = (if failed s1 > 0 then s1\<lparr>cout := cout s1 @ [FAILED_tests (failed s1)]\<rparr> else s1)
      in (failed s2, s2))"

section \<open>Vocabulary of the properties\<close>

text \<open>The types for which \<^verbatim>\<open>Trie::Get\<close> and \<^verbatim>\<open>Trie::Put\<close> are explicitly instantiated
  (lines 177-184); no other instance of the two templates exists in the program.\<close>

definition instantiated :: "type_tag \<Rightarrow> bool" where
  "instantiated T = (T = uint32_t \<or> T = uint64_t \<or> T = std_string)"

text \<open>The types that the casts of \<^verbatim>\<open>CreateNodeWithNewChildren\<close> recognise (lines 47-58).\<close>

definition in_ladder :: "type_tag \<Rightarrow> bool" where
  "in_ladder T = (T = uint32_t \<or> T = uint64_t \<or> T = std_string \<or> T = int_t)"

text \<open>The child map of a possibly null node; a null node has none.\<close>

definition kids :: "node option \<Rightarrow> (char \<times> node) list" where
  "kids node = (case node of None \<Rightarrow> [] | Some n \<Rightarrow> children n)"

text \<open>The payload a trie stores at a key: that of the node the key leads to, when the
  path exists and ends at a value node.\<close>

definition stored_at :: "trie \<Rightarrow> string \<Rightarrow> payload option" where
  "stored_at t key =
     (case trie_root t of
        None \<Rightarrow> None
      | Some r \<Rightarrow>
          (case walk r key of
             None \<Rightarrow> None
           | Some (TrieNode _) \<Rightarrow> None
           | Some (TrieNodeWithValue _ v) \<Rightarrow> Some v))"

text \<open>No orphan internals: a node without payload has a child, here and below.\<close>

fun no_orphan :: "node \<Rightarrow> bool" where
  "no_orphan (TrieNode ch) = (ch \<noteq> [] \<and> (\<forall>(c, n) \<in> set ch. no_orphan n))"
| "no_orphan (TrieNodeWithValue ch v) = (\<forall>(c, n) \<in> set ch. no_orphan n)"

definition no_orphan_internals :: "trie \<Rightarrow> bool" where
  "no_orphan_internals t = (case trie_root t of None \<Rightarrow> True | Some r \<Rightarrow> no_orphan r)"

text \<open>Every payload in a tree has a type that satisfies \<open>P\<close>.\<close>

fun payload_types :: "(type_tag \<Rightarrow> bool) \<Rightarrow> node \<Rightarrow> bool" where
  "payload_types P (TrieNode ch) = (\<forall>(c, n) \<in> set ch. payload_types P n)"
| "payload_types P (TrieNodeWithValue ch v) =
     (P (type_of v) \<and> (\<forall>(c, n) \<in> set ch. payload_types P n))"

definition trie_payload_types :: "(type_tag \<Rightarrow> bool) \<Rightarrow> trie \<Rightarrow> bool" where
  "trie_payload_types P t =
     (case trie_root t of None \<Rightarrow> True | Some r \<Rightarrow> payload_types P r)"

text \<open>Rebuilding nodes of a tree cannot lose a payload that a \<open>Get\<close> under \<open>T\<close> would return:
  \<open>T\<close> is one of the types of the ladder, or all payloads in the tree have such a type.\<close>

definition keeps :: "type_tag \<Rightarrow> node option \<Rightarrow> bool" where
  "keeps T node =
     (in_ladder T \<or> (case node of None \<Rightarrow> True | Some n \<Rightarrow> payload_types in_ladder n))"

text \<open>The tries a client can build: a \<^verbatim>\<open>Trie\<close> is default-constructed empty and then only
  changed through \<open>Put\<close>, at one of its three instantiations, and \<open>Remove\<close>.\<close>

datatype op = Put_op string payload | Remove_op string

fun public_op :: "op \<Rightarrow> bool" where
  "public_op (Put_op key v) = instantiated (type_of v)"
| "public_op (Remove_op key) = True"

fun apply_op :: "trie \<Rightarrow> op \<Rightarrow> trie" where
  "apply_op t (Put_op key v) = Put t key v"
| "apply_op t (Remove_op key) = Remove t key"

definition run_ops :: "op list \<Rightarrow> trie" where
  "run_ops ops = foldl apply_op empty_trie ops"

definition public_inv :: "trie \<Rightarrow> bool" where
  "public_inv t = (no_orphan_internals t \<and> trie_payload_types instantiated t)"

text \<open>A store is well formed when every handle kept in an allocated cell points to a
  cell allocated before it; a handle is valid when it is null or points to an allocated
  cell. \<open>extends s s'\<close>: the store \<open>s'\<close> has all cells of \<open>s\<close>, unchanged.\<close>

definition wf_store :: "store \<Rightarrow> bool" where
  "wf_store s =
     list_all (\<lambda>a. list_all (\<lambda>(c, b). b < a) (cell_children (cells s a))) [0..<allocated s]"

definition valid_handle :: "store \<Rightarrow> addr option \<Rightarrow> bool" where
  "valid_handle s h = (case h of None \<Rightarrow> True | Some a \<Rightarrow> a < allocated s)"

definition extends :: "store \<Rightarrow> store \<Rightarrow> bool" where
  "extends s s' = (allocated s \<le> allocated s' \<and> (\<forall>a < allocated s. cells s' a = cells s a))"

definition kids_st :: "store \<Rightarrow> addr option \<Rightarrow> (char \<times> addr) list" where
  "kids_st s node = (case node of None \<Rightarrow> [] | Some a \<Rightarrow> cell_children (cells s a))"

text \<open>The store after \<^verbatim>\<open>Put("ab", 1)\<close> on the empty trie: three cells, the root at
  address 2.\<close>

definition store_ab :: store where
  "store_ab = snd (Put_st None ''ab'' (V_uint32 1) empty_store)"

text \<open>The handle of the node a key leads to from a root handle.\<close>

definition node_at :: "store \<Rightarrow> addr option \<Rightarrow> string \<Rightarrow> addr option" where
  "node_at s root key = (case root of None \<Rightarrow> None | Some r \<Rightarrow> walk_st s r key)"

text \<open>The cell that \<^const>\<open>CreateNodeWithNewChildren_st\<close> allocates.\<close>

definition new_cell :: "store \<Rightarrow> addr option \<Rightarrow> (char \<times> addr) list \<Rightarrow> cell" where
  "new_cell s node ch =
     (case node of
        None \<Rightarrow> Cell_TrieNode ch
      | Some a \<Rightarrow>
          if \<not> cell_is_value_node (cells s a) then Cell_TrieNode ch
          else (case cell_dynamic_cast uint32_t (cells s a) of
             Some v \<Rightarrow> Cell_TrieNodeWithValue ch v
           | None \<Rightarrow> (case cell_dynamic_cast uint64_t (cells s a) of
             Some v \<Rightarrow> Cell_TrieNodeWithValue ch v
           | None \<Rightarrow> (case cell_dynamic_cast std_string (cells s a) of
             Some v \<Rightarrow> Cell_TrieNodeWithValue ch v
           | None \<Rightarrow> (case cell_dynamic_cast int_t (cells s a) of
             Some v \<Rightarrow> Cell_TrieNodeWithValue ch v
           | None \<Rightarrow> Cell_TrieNode ch)))))"

text \<open>The tree a handle stands for: the cell it points to, with every handle below
  replaced by its tree. Handles in a well-formed store decrease along a path, which is
  what the \<open>filter\<close> states; on such a store it removes nothing.\<close>

fun tree_of :: "store \<Rightarrow> addr \<Rightarrow> node" where
  "tree_of s a =
     (case cells s a of
        Cell_TrieNode ch \<Rightarrow>
          TrieNode (map (\<lambda>(c, b). (c, tree_of s b)) (filter (\<lambda>(c, b). b < a) ch))
      | Cell_TrieNodeWithValue ch v \<Rightarrow>
          TrieNodeWithValue (map (\<lambda>(c, b). (c, tree_of s b)) (filter (\<lambda>(c, b). b < a) ch)) v)"

definition trie_of :: "store \<Rightarrow> addr option \<Rightarrow> trie" where
  "trie_of s root = Trie (map_option (tree_of s) root)"

text \<open>A root handle and a store represent a trie when the store is well formed, the
  handle is valid and the tree of the handle is the root of the trie. The same sequences
  of operations as above, run on the store.\<close>

definition represents :: "addr option \<times> store \<Rightarrow> trie \<Rightarrow> bool" where
  "represents h t =
     (wf_store (snd h) \<and> valid_handle (snd h) (fst h) \<and> trie_of (snd h) (fst h) = t)"

fun apply_op_st :: "addr option \<times> store \<Rightarrow> op \<Rightarrow> addr option \<times> store" where
  "apply_op_st (root, s) (Put_op key v) = Put_st root key v s"
| "apply_op_st (root, s) (Remove_op key) = Remove_st root key s"

definition run_ops_st :: "op list \<Rightarrow> addr option \<times> store" where
  "run_ops_st ops = foldl apply_op_st (None, empty_store) ops"

text \<open>A test function throws when it ends by an exception rather than by returning, and
  one of its assertions fails when the run reaches an assertion whose condition is false.\<close>

definition throws :: "stmt list \<Rightarrow> bool" where
  "throws body = (fst (run_func body []) \<noteq> Returned)"

fun assertion_fails :: "stmt list \<Rightarrow> bool" where
  "assertion_fails [] = False"
| "assertion_fails (ASSERT_TRUE text cond # rest) = (\<not> cond \<or> assertion_fails rest)"
| "assertion_fails (ASSERT_EQ ltext rtext l r # rest) = (l \<noteq> r \<or> assertion_fails rest)"
| "assertion_fails (Throw_exception what # rest) = False"
| "assertion_fails (Throw_unknown # rest) = False"
| "assertion_fails (Statement # rest) = assertion_fails rest"

section \<open>Lookup after Put\<close>

lemma instantiated_in_ladder: "instantiated T \<Longrightarrow> in_ladder T"
  by (auto simp add: instantiated_def in_ladder_def)

lemma children_Create [simp]: "children (CreateNodeWithNewChildren node ch) = ch"
  by (simp add: CreateNodeWithNewChildren_def split: option.splits)

lemma Create_None: "CreateNodeWithNewChildren None ch = TrieNode ch"
  by (simp add: CreateNodeWithNewChildren_def)

lemma Create_Some:
  "CreateNodeWithNewChildren (Some n) ch =
     (if is_value_node n \<and> in_ladder (type_of (node_value n))
      then TrieNodeWithValue ch (node_value n) else TrieNode ch)"
proof (cases n)
  case (TrieNode ch')
  then show ?thesis by (simp add: CreateNodeWithNewChildren_def)
next
  case (TrieNodeWithValue ch' v)
  then show ?thesis
    by (cases v) (simp_all add: CreateNodeWithNewChildren_def in_ladder_def)
qed

lemma payload_types_children:
  "payload_types P n \<Longrightarrow> (c, m) \<in> set (children n) \<Longrightarrow> payload_types P m"
  by (cases n) auto

lemma payload_types_kid:
  "pred_option (payload_types P) node \<Longrightarrow> pred_option (payload_types P) (map_of (kids node) c)"
proof (cases "map_of (kids node) c")
  case None
  then show ?thesis by simp
next
  case (Some it)
  assume a: "pred_option (payload_types P) node"
  from Some have "(c, it) \<in> set (kids node)" by (rule map_of_SomeD)
  with a Some show ?thesis
    by (cases node) (auto simp add: kids_def dest: payload_types_children)
qed

lemma keeps_iff: "keeps T node = (in_ladder T \<or> pred_option (payload_types in_ladder) node)"
  by (simp add: keeps_def split: option.splits)

lemma keeps_kid: "keeps T node \<Longrightarrow> keeps T (map_of (kids node) c)"
  by (auto simp add: keeps_iff dest: payload_types_kid)

lemma keeps_child: "keeps T (Some n) \<Longrightarrow> map_of (children n) c = Some it \<Longrightarrow> keeps T (Some it)"
  using keeps_kid[of T "Some n" c] by (simp add: kids_def)

lemma dynamic_cast_Create:
  "keeps T (Some n) \<Longrightarrow> dynamic_cast T (CreateNodeWithNewChildren (Some n) ch) = dynamic_cast T n"
  by (cases n) (auto simp add: Create_Some keeps_def)

lemma PutHelper_Cons:
  "PutHelper node (c # cs) v =
     CreateNodeWithNewChildren node
       (AList.update c (PutHelper (map_of (kids node) c) cs v) (kids node))"
  by (simp add: kids_def Let_def split: option.splits)

lemma Get_None [simp]: "Get T (Trie None) key = None"
  by (simp add: Get_def)

lemma Get_Nil: "Get T (Trie (Some n)) [] = dynamic_cast T n"
  by (cases n) (simp_all add: Get_def)

lemma Get_Cons: "Get T (Trie (Some n)) (c # cs) = Get T (Trie (map_of (children n) c)) cs"
  by (simp add: Get_def split: option.splits)

lemma Get_kids: "Get T (Trie node) (c # cs) = Get T (Trie (map_of (kids node) c)) cs"
  by (cases node) (simp_all add: Get_Cons kids_def)

lemma Get_PutHelper_same:
  "Get T (Trie (Some (PutHelper node key v))) key = (if type_of v = T then Some v else None)"
proof (induction key arbitrary: node)
  case Nil
  show ?case by (simp add: Get_Nil split: option.splits)
next
  case (Cons c cs)
  show ?case
    by (simp add: PutHelper_Cons Get_Cons update_conv' Cons.IH del: PutHelper.simps)
qed

lemma Get_PutHelper_other:
  "key \<noteq> key2 \<Longrightarrow> keeps T node \<Longrightarrow>
   Get T (Trie (Some (PutHelper node key v))) key2 = Get T (Trie node) key2"
proof (induction key arbitrary: node key2)
  case Nil
  then obtain d ds where k2: "key2 = d # ds" by (cases key2) auto
  show ?case unfolding k2 by (cases node) (simp_all add: Get_Cons)
next
  case (Cons c cs)
  show ?case
  proof (cases key2)
    case Nil
    show ?thesis unfolding Nil PutHelper_Cons using Cons.prems(2)
      by (cases node) (simp_all add: Get_Nil dynamic_cast_Create Create_None)
  next
    case (Cons d ds)
    show ?thesis
    proof (cases "d = c")
      case True
      with Cons Cons.prems have "cs \<noteq> ds" by simp
      from Cons.IH[OF this keeps_kid[OF Cons.prems(2)]] show ?thesis
        unfolding Cons True PutHelper_Cons
        by (simp add: Get_Cons update_conv' Get_kids[of T node])
    next
      case False
      then show ?thesis unfolding Cons PutHelper_Cons
        by (simp add: Get_Cons update_conv' Get_kids[of T node])
    qed
  qed
qed

lemma Get_Put_same: "Get T (Put S K V) K = (if type_of V = T then Some V else None)"
  by (simp add: Put_def Get_PutHelper_same)

lemma Get_Put_other:
  "K \<noteq> K2 \<Longrightarrow> keeps T (trie_root S) \<Longrightarrow> Get T (Put S K V) K2 = Get T S K2"
  by (cases S) (simp add: Put_def Get_PutHelper_other)

lemma Get_stored_at:
  "Get T S K =
     (case stored_at S K of
        None \<Rightarrow> None
      | Some v \<Rightarrow> if type_of v = T then Some v else None)"
  by (auto simp add: Get_def stored_at_def split: option.splits node.splits)

text \<open>
  \<^bold>\<open>Claim C1\<close> (round-trip). For every trie \<open>S\<close>, every key \<open>K\<close>, the empty key included,
  and every value \<open>V\<close>, a \<open>Get\<close> at \<open>K\<close> under the type of \<open>V\<close> on \<open>S.Put(K, V)\<close> yields
  exactly \<open>V\<close>. The statement holds for a value of any type, in particular for the three
  instantiated ones.
\<close>

theorem Put_Get_round_trip: "Get (type_of V) (Put S K V) K = Some V"
  by (simp add: Get_Put_same)

text \<open>
  \<^bold>\<open>Claim C2\<close> (non-interference of Put). For every trie \<open>S\<close>, distinct keys \<open>K\<close> and \<open>K2\<close>,
  every value \<open>V\<close> and every type \<open>U\<close> that \<open>Get\<close> is instantiated for, \<open>Get\<close> under \<open>U\<close> at
  \<open>K2\<close> returns on \<open>S.Put(K, V)\<close> exactly what it returns on \<open>S\<close>: the same value or the
  same absence.
\<close>

theorem Put_non_interference:
  "K \<noteq> K2 \<Longrightarrow> instantiated U \<Longrightarrow> Get U (Put S K V) K2 = Get U S K2"
  by (simp add: Get_Put_other keeps_def instantiated_in_ladder)

theorem Put_non_interference_witness:
  "''abc'' \<noteq> ''ab'' \<and> instantiated uint32_t
   \<and> Get uint32_t (Put (Put empty_trie ''ab'' (V_uint32 1)) ''abc'' (V_uint64 2)) ''ab''
       = Get uint32_t (Put empty_trie ''ab'' (V_uint32 1)) ''ab''
   \<and> Get uint32_t (Put empty_trie ''ab'' (V_uint32 1)) ''ab'' = Some (V_uint32 1)"
proof -
  have h1: "''abc'' \<noteq> ''ab''" by simp
  have h2: "instantiated uint32_t" by (simp add: instantiated_def)
  have v: "Get uint32_t (Put empty_trie ''ab'' (V_uint32 1)) ''ab'' = Some (V_uint32 1)"
    by (simp add: Get_def Put_def empty_trie_def CreateNodeWithNewChildren_def)
  show ?thesis
    using h1 h2 v
      Put_non_interference [OF h1 h2, of "Put empty_trie ''ab'' (V_uint32 1)" "V_uint64 2"]
    by simp
qed

text \<open>
  \<^bold>\<open>Claim C5\<close> (overwrite). For every trie \<open>S\<close>, key \<open>K\<close> and values \<open>V1\<close>, \<open>V2\<close> of any two
  types, a \<open>Get\<close> at \<open>K\<close> under tag \<open>T\<close> on \<open>S.Put(K, V1).Put(K, V2)\<close> yields \<open>V2\<close> when \<open>T\<close> is
  the type of \<open>V2\<close> and absence under every other tag; so the result is never the old
  value \<open>V1\<close> unless it is \<open>V2\<close> itself.
\<close>

theorem Put_Put_overwrite:
  "Get T (Put (Put S K V1) K V2) K = (if T = type_of V2 then Some V2 else None)"
  by (auto simp add: Get_Put_same)

text \<open>
  \<^bold>\<open>Claim C6\<close> (type fidelity of Get). If a trie stores at key \<open>K\<close> a value \<open>v\<close>, whose
  type is the tag it was stored under, then \<open>Get\<close> at \<open>K\<close> under every other tag \<open>U\<close>
  reports absence, and \<open>Get\<close> under the tag of \<open>v\<close> returns \<open>v\<close>.
\<close>

theorem Get_type_fidelity:
  "stored_at S K = Some v \<Longrightarrow> U \<noteq> type_of v \<Longrightarrow>
   Get U S K = None \<and> Get (type_of v) S K = Some v"
  by (simp add: Get_stored_at)

theorem Get_type_fidelity_witness:
  "stored_at (Put empty_trie ''k'' (V_uint32 7)) ''k'' = Some (V_uint32 7)
   \<and> uint64_t \<noteq> type_of (V_uint32 7)
   \<and> Get uint64_t (Put empty_trie ''k'' (V_uint32 7)) ''k'' = None
   \<and> Get uint32_t (Put empty_trie ''k'' (V_uint32 7)) ''k'' = Some (V_uint32 7)"
proof -
  have h1: "stored_at (Put empty_trie ''k'' (V_uint32 7)) ''k'' = Some (V_uint32 7)"
    by (simp add: stored_at_def Put_def empty_trie_def CreateNodeWithNewChildren_def)
  have h2: "uint64_t \<noteq> type_of (V_uint32 7)" by simp
  show ?thesis using h1 h2 Get_type_fidelity [OF h1 h2] by simp
qed

section \<open>Lookup after Remove\<close>

lemma map_of_others:
  "map_of (filter (\<lambda>(ch, child). ch \<noteq> c) al) d = (if d = c then None else map_of al d)"
  by (induction al) auto

lemma others_Nil_map_of:
  "filter (\<lambda>(ch, child). ch \<noteq> c) al = [] \<Longrightarrow> d \<noteq> c \<Longrightarrow> map_of al d = None"
  using map_of_others[of c al d] by simp

lemma update_not_Nil [simp]: "AList.update k v al \<noteq> []"
  by (cases al) auto

lemma Get_RemoveHelper:
  "keeps T node \<Longrightarrow>
   Get T (Trie (RemoveHelper node key)) key2 = (if key2 = key then None else Get T (Trie node) key2)"
proof (induction node key arbitrary: key2 rule: RemoveHelper.induct)
  case (1 key)
  show ?case by simp
next
  case (2 n)
  show ?case
  proof (cases key2)
    case Nil
    then show ?thesis by (simp add: Get_Nil)
  next
    case (Cons d ds)
    then show ?thesis by (auto simp add: Get_Cons)
  qed
next
  case (3 n c cs)
  show ?case
  proof (cases "map_of (children n) c")
    case None
    then show ?thesis by (auto simp add: Get_Cons)
  next
    case (Some it)
    define new_child where "new_child = RemoveHelper (Some it) cs"
    define others where "others = filter (\<lambda>(ch, child). ch \<noteq> c) (children n)"
    define new_children where
      "new_children = (case new_child of Some x \<Rightarrow> AList.update c x others | None \<Rightarrow> others)"
    have R: "RemoveHelper (Some n) (c # cs) =
        (if \<not> is_value_node n \<and> new_children = [] then None
         else Some (CreateNodeWithNewChildren (Some n) new_children))"
      unfolding new_children_def others_def new_child_def by (simp add: Some Let_def)
    have IH: "Get T (Trie new_child) k = (if k = cs then None else Get T (Trie (Some it)) k)" for k
      unfolding new_child_def using "3.IH"[OF Some keeps_child[OF "3.prems" Some]] .
    have look: "map_of new_children d = (if d = c then new_child else map_of (children n) d)" for d
      by (cases new_child) (simp_all add: new_children_def others_def map_of_others update_conv')
    show ?thesis
    proof (cases "\<not> is_value_node n \<and> new_children = []")
      case pruned: True
      then have nc: "new_child = None"
        by (cases new_child) (simp_all add: new_children_def)
      have noval: "dynamic_cast T n = None" using pruned by (cases n) simp_all
      have R: "RemoveHelper (Some n) (c # cs) = None"
        using R pruned by auto
      have empty: "map_of (children n) d = None" if "d \<noteq> c" for d
        using look[of d] pruned that by simp
      show ?thesis
      proof (cases key2)
        case Nil
        then show ?thesis using pruned noval by (simp add: R Get_Nil del: RemoveHelper.simps)
      next
        case (Cons d ds)
        show ?thesis
        proof (cases "d = c")
          case True
          then show ?thesis using IH[of ds] pruned unfolding Cons nc
            by (auto simp add: R Get_Cons Some simp del: RemoveHelper.simps split: if_splits)
        next
          case False
          then show ?thesis using empty[OF False] pruned unfolding Cons
            by (simp add: R Get_Cons del: RemoveHelper.simps)
        qed
      qed
    next
      case kept: False
      have R: "RemoveHelper (Some n) (c # cs) = Some (CreateNodeWithNewChildren (Some n) new_children)"
        using R kept by auto
      show ?thesis
      proof (cases key2)
        case Nil
        then show ?thesis using "3.prems" by (simp add: R Get_Nil dynamic_cast_Create del: RemoveHelper.simps)
      next
        case (Cons d ds)
        show ?thesis
        proof (cases "d = c")
          case True
          then show ?thesis using IH[of ds] kept unfolding Cons
            by (auto simp add: R Get_Cons Some look simp del: RemoveHelper.simps split: if_splits)
        next
          case False
          then show ?thesis using kept unfolding Cons
            by (simp add: R Get_Cons look del: RemoveHelper.simps)
        qed
      qed
    qed
  qed
qed

lemma RemoveHelper_PutHelper_None:
  "RemoveHelper (Some (PutHelper None key v)) key = None"
proof (induction key)
  case Nil
  show ?case by simp
next
  case (Cons c cs)
  show ?case
    by (simp add: PutHelper_Cons kids_def CreateNodeWithNewChildren_def Cons.IH del: PutHelper.simps)
qed

lemma Get_Remove:
  "keeps T (trie_root S) \<Longrightarrow>
   Get T (Remove S K) K2 = (if K2 = K then None else Get T S K2)"
  by (cases S) (simp add: Remove_def Get_RemoveHelper)

lemma Get_absent: "stored_at S K = None \<Longrightarrow> Get T S K = None"
  by (simp add: Get_stored_at)

text \<open>
  \<^bold>\<open>Claim C4\<close> (remove after put, with cascade). For every key \<open>K\<close> and value \<open>V\<close>, removing
  \<open>K\<close> from the trie \<open>E.Put(K, V)\<close> built on the empty trie \<open>E\<close> returns a trie whose root is
  absent, which is the empty trie, and in which \<open>Get\<close> at \<open>K\<close> reports absence under every
  tag; the receiver \<open>E.Put(K, V)\<close> still yields \<open>V\<close> at \<open>K\<close>.
\<close>

theorem Remove_after_Put_cascade:
  "trie_root (Remove (Put empty_trie K V) K) = None
   \<and> Remove (Put empty_trie K V) K = empty_trie
   \<and> Get T (Remove (Put empty_trie K V) K) K = None
   \<and> Get (type_of V) (Put empty_trie K V) K = Some V"
  by (simp add: Remove_def Put_def empty_trie_def RemoveHelper_PutHelper_None
      Get_PutHelper_same)

text \<open>
  \<^bold>\<open>Claim C7\<close> (removing an absent key changes no lookup). For every trie \<open>S\<close> and key \<open>K\<close>
  at which \<open>S\<close> stores no value, because the path of \<open>K\<close> does not exist or ends at a node
  without payload, every \<open>Get\<close> on \<open>S.Remove(K)\<close>, at any key \<open>K2\<close> and under any type \<open>T\<close>
  that \<open>Get\<close> is instantiated for, agrees with the same \<open>Get\<close> on \<open>S\<close>.
\<close>

theorem Remove_absent_noop:
  "stored_at S K = None \<Longrightarrow> instantiated T \<Longrightarrow> Get T (Remove S K) K2 = Get T S K2"
  by (simp add: Get_Remove Get_absent keeps_def instantiated_in_ladder)

theorem Remove_absent_noop_witness:
  "stored_at (Put empty_trie ''ab'' (V_string ''x'')) ''a'' = None
   \<and> instantiated std_string
   \<and> Get std_string (Remove (Put empty_trie ''ab'' (V_string ''x'')) ''a'') ''ab''
       = Get std_string (Put empty_trie ''ab'' (V_string ''x'')) ''ab''
   \<and> Get std_string (Put empty_trie ''ab'' (V_string ''x'')) ''ab'' = Some (V_string ''x'')"
proof -
  have h1: "stored_at (Put empty_trie ''ab'' (V_string ''x'')) ''a'' = None"
    by (simp add: stored_at_def Put_def empty_trie_def CreateNodeWithNewChildren_def)
  have h2: "instantiated std_string" by (simp add: instantiated_def)
  have v: "Get std_string (Put empty_trie ''ab'' (V_string ''x'')) ''ab'' = Some (V_string ''x'')"
    by (simp add: Get_def Put_def empty_trie_def CreateNodeWithNewChildren_def)
  show ?thesis
    using h1 h2 v Remove_absent_noop [OF h1 h2, of "''ab''"] by simp
qed

section \<open>The invariants of the tries a client can build\<close>


lemma no_orphan_iff:
  "no_orphan n = ((is_value_node n \<or> children n \<noteq> []) \<and> (\<forall>(c, m) \<in> set (children n). no_orphan m))"
  by (cases n) auto

lemma in_set_update:
  "x \<in> set (AList.update k v al) \<Longrightarrow> x = (k, v) \<or> x \<in> set al"
  by (induction al) (auto split: if_splits)

lemma no_orphan_children:
  "no_orphan n \<Longrightarrow> (c, m) \<in> set (children n) \<Longrightarrow> no_orphan m"
  by (cases n) auto

lemma no_orphan_Create:
  "ch \<noteq> [] \<Longrightarrow> \<forall>(c, m) \<in> set ch. no_orphan m \<Longrightarrow> no_orphan (CreateNodeWithNewChildren node ch)"
  by (subst no_orphan_iff) simp

lemma no_orphan_kids:
  "pred_option no_orphan node \<Longrightarrow> (c, m) \<in> set (kids node) \<Longrightarrow> no_orphan m"
  by (cases node) (auto simp add: kids_def dest: no_orphan_children)

lemma no_orphan_PutHelper:
  "pred_option no_orphan node \<Longrightarrow> no_orphan (PutHelper node key v)"
proof (induction key arbitrary: node)
  case Nil
  then show ?case
    by (cases node) (auto dest: no_orphan_children)
next
  case (Cons c cs)
  have sub: "pred_option no_orphan (map_of (kids node) c)"
  proof (cases "map_of (kids node) c")
    case None
    then show ?thesis by simp
  next
    case (Some it)
    then have "(c, it) \<in> set (kids node)" by (rule map_of_SomeD)
    with Cons.prems Some show ?thesis by (simp add: no_orphan_kids)
  qed
  have child: "no_orphan (PutHelper (map_of (kids node) c) cs v)"
    using Cons.IH[OF sub] .
  have "\<forall>(d, m) \<in> set (AList.update c (PutHelper (map_of (kids node) c) cs v) (kids node)). no_orphan m"
    using child Cons.prems by (auto dest!: in_set_update dest: no_orphan_kids)
  then show ?case unfolding PutHelper_Cons by (intro no_orphan_Create) simp_all
qed

lemma payload_types_PutHelper:
  "pred_option (payload_types P) node \<Longrightarrow> P (type_of v) \<Longrightarrow>
   payload_types P (PutHelper node key v)"
proof (induction key arbitrary: node)
  case Nil
  then show ?case by (cases node) (auto dest: payload_types_children)
next
  case (Cons c cs)
  have kid: "payload_types P m" if "(d, m) \<in> set (kids node)" for d m
    using that Cons.prems(1) by (cases node) (auto simp add: kids_def dest: payload_types_children)
  have sub: "pred_option (payload_types P) (map_of (kids node) c)"
  proof (cases "map_of (kids node) c")
    case None
    then show ?thesis by simp
  next
    case (Some it)
    then have "(c, it) \<in> set (kids node)" by (rule map_of_SomeD)
    with Some show ?thesis by (simp add: kid)
  qed
  have child: "payload_types P (PutHelper (map_of (kids node) c) cs v)"
    using Cons.IH[OF sub Cons.prems(2)] .
  have all: "\<forall>(d, m) \<in> set (AList.update c (PutHelper (map_of (kids node) c) cs v) (kids node)).
      payload_types P m"
    using child by (auto dest!: in_set_update dest: kid)
  show ?case
  proof (cases node)
    case None
    then show ?thesis unfolding PutHelper_Cons using all by (simp add: Create_None)
  next
    case (Some n)
    have "P (type_of (node_value n))" if "is_value_node n"
      using Cons.prems(1) that unfolding Some by (cases n) simp_all
    then show ?thesis unfolding PutHelper_Cons Some using all[unfolded Some]
      by (simp add: Create_Some)
  qed
qed

lemma RemoveHelper_Cons_Some:
  assumes "map_of (children n) c = Some it"
  shows "RemoveHelper (Some n) (c # cs) =
     (let new_children =
            (case RemoveHelper (Some it) cs of
               Some x \<Rightarrow> AList.update c x (filter (\<lambda>(ch, child). ch \<noteq> c) (children n))
             | None \<Rightarrow> filter (\<lambda>(ch, child). ch \<noteq> c) (children n))
      in if \<not> is_value_node n \<and> new_children = [] then None
         else Some (CreateNodeWithNewChildren (Some n) new_children))"
  using assms by (simp add: Let_def)

lemma new_children_all:
  assumes kids: "\<And>d m. (d, m) \<in> set al \<Longrightarrow> Q m"
    and new: "pred_option Q new_child"
  shows "\<forall>(d, m) \<in> set (case new_child of
               Some x \<Rightarrow> AList.update c x (filter (\<lambda>(ch, child). ch \<noteq> c) al)
             | None \<Rightarrow> filter (\<lambda>(ch, child). ch \<noteq> c) al). Q m"
  using new by (cases new_child) (auto dest!: in_set_update dest: kids)

lemma payload_types_Create:
  "pred_option (payload_types P) node \<Longrightarrow> \<forall>(d, m) \<in> set ch. payload_types P m \<Longrightarrow>
   payload_types P (CreateNodeWithNewChildren node ch)"
proof (cases node)
  case None
  assume "\<forall>(d, m) \<in> set ch. payload_types P m"
  with None show ?thesis by (simp add: Create_None)
next
  case (Some n)
  assume a: "pred_option (payload_types P) node" and b: "\<forall>(d, m) \<in> set ch. payload_types P m"
  have "P (type_of (node_value n))" if "is_value_node n"
    using a that unfolding Some by (cases n) simp_all
  with b show ?thesis unfolding Some by (simp add: Create_Some)
qed

lemma payload_types_RemoveHelper:
  "pred_option (payload_types P) node \<Longrightarrow> pred_option (payload_types P) (RemoveHelper node key)"
proof (induction node key rule: RemoveHelper.induct)
  case (1 key)
  show ?case by simp
next
  case (2 n)
  then show ?case by (auto dest: payload_types_children)
next
  case (3 n c cs)
  show ?case
  proof (cases "map_of (children n) c")
    case None
    with "3.prems" show ?thesis by simp
  next
    case (Some it)
    then have "(c, it) \<in> set (children n)" by (rule map_of_SomeD)
    with "3.prems" have "pred_option (payload_types P) (Some it)"
      by (auto dest: payload_types_children)
    then have new: "pred_option (payload_types P) (RemoveHelper (Some it) cs)"
      by (rule "3.IH"[OF Some])
    have kids: "payload_types P m" if "(d, m) \<in> set (children n)" for d m
      using "3.prems" that by (auto dest: payload_types_children)
    show ?thesis
      unfolding RemoveHelper_Cons_Some[OF Some] Let_def
      using new_children_all[of "children n" "payload_types P", OF kids new] "3.prems"
      by (simp add: payload_types_Create)
  qed
qed

lemma no_orphan_RemoveHelper:
  "pred_option no_orphan node \<Longrightarrow> pred_option (payload_types in_ladder) node \<Longrightarrow>
   pred_option no_orphan (RemoveHelper node key)"
proof (induction node key rule: RemoveHelper.induct)
  case (1 key)
  show ?case by simp
next
  case (2 n)
  then show ?case by (auto dest: no_orphan_children)
next
  case (3 n c cs)
  show ?case
  proof (cases "map_of (children n) c")
    case None
    with "3.prems" show ?thesis by simp
  next
    case (Some it)
    then have mem: "(c, it) \<in> set (children n)" by (rule map_of_SomeD)
    with "3.prems" have "pred_option no_orphan (Some it)"
      "pred_option (payload_types in_ladder) (Some it)"
      by (auto dest: no_orphan_children payload_types_children)
    then have new: "pred_option no_orphan (RemoveHelper (Some it) cs)"
      by (rule "3.IH"[OF Some])
    have kids: "no_orphan m" if "(d, m) \<in> set (children n)" for d m
      using "3.prems" that by (auto dest: no_orphan_children)
    have lad: "in_ladder (type_of (node_value n))" if "is_value_node n"
      using "3.prems"(2) that by (cases n) simp_all
    show ?thesis
      unfolding RemoveHelper_Cons_Some[OF Some] Let_def
      using new_children_all[of "children n" no_orphan, OF kids new] lad
      by (auto simp add: Create_Some)
  qed
qed

lemma no_orphan_internals_iff: "no_orphan_internals t = pred_option no_orphan (trie_root t)"
  by (simp add: no_orphan_internals_def split: option.splits)

lemma trie_payload_types_iff:
  "trie_payload_types P t = pred_option (payload_types P) (trie_root t)"
  by (simp add: trie_payload_types_def split: option.splits)

lemma no_orphan_Put: "no_orphan_internals S \<Longrightarrow> no_orphan_internals (Put S K V)"
  by (simp add: no_orphan_internals_iff Put_def no_orphan_PutHelper)

lemma no_orphan_Remove:
  "no_orphan_internals S \<Longrightarrow> trie_payload_types in_ladder S \<Longrightarrow> no_orphan_internals (Remove S K)"
  by (simp add: no_orphan_internals_iff trie_payload_types_iff Remove_def no_orphan_RemoveHelper)

lemma payload_types_Put:
  "trie_payload_types P S \<Longrightarrow> P (type_of V) \<Longrightarrow> trie_payload_types P (Put S K V)"
  by (simp add: trie_payload_types_iff Put_def payload_types_PutHelper)

lemma payload_types_Remove:
  "trie_payload_types P S \<Longrightarrow> trie_payload_types P (Remove S K)"
  by (simp add: trie_payload_types_iff Remove_def payload_types_RemoveHelper)

lemma payload_types_mono:
  "\<forall>T. P T \<longrightarrow> Q T \<Longrightarrow> payload_types P n \<Longrightarrow> payload_types Q n"
  by (induction P n rule: payload_types.induct) auto

lemma trie_payload_types_ladder:
  "trie_payload_types instantiated S \<Longrightarrow> trie_payload_types in_ladder S"
  by (cases "trie_root S")
     (auto simp add: trie_payload_types_iff instantiated_in_ladder
        intro: payload_types_mono[of instantiated in_ladder])

lemma public_inv_apply_op:
  "public_inv t \<Longrightarrow> public_op x \<Longrightarrow> public_inv (apply_op t x)"
  by (cases x)
     (simp_all add: public_inv_def no_orphan_Put no_orphan_Remove payload_types_Put
        payload_types_Remove trie_payload_types_ladder)

lemma public_inv_foldl:
  "public_inv t \<Longrightarrow> list_all public_op ops \<Longrightarrow> public_inv (foldl apply_op t ops)"
  by (induction ops arbitrary: t) (simp_all add: public_inv_apply_op)

lemma public_inv_run_ops: "list_all public_op ops \<Longrightarrow> public_inv (run_ops ops)"
  unfolding run_ops_def
  by (rule public_inv_foldl)
     (simp_all add: public_inv_def empty_trie_def no_orphan_internals_def trie_payload_types_def)

text \<open>On the tries a client can build, the lookup equations hold under every type tag,
  instantiated or not.\<close>

lemma public_keeps: "list_all public_op ops \<Longrightarrow> keeps T (trie_root (run_ops ops))"
proof -
  assume "list_all public_op ops"
  then have "public_inv (run_ops ops)" by (rule public_inv_run_ops)
  then have "trie_payload_types in_ladder (run_ops ops)"
    by (simp add: public_inv_def trie_payload_types_ladder)
  then show ?thesis by (simp add: keeps_iff trie_payload_types_iff)
qed

lemma public_Get_Put_other:
  "list_all public_op ops \<Longrightarrow> K \<noteq> K2 \<Longrightarrow>
   Get T (Put (run_ops ops) K V) K2 = Get T (run_ops ops) K2"
  by (simp add: Get_Put_other public_keeps)

lemma public_Get_Remove:
  "list_all public_op ops \<Longrightarrow>
   Get T (Remove (run_ops ops) K) K2 = (if K2 = K then None else Get T (run_ops ops) K2)"
  by (simp add: Get_Remove public_keeps)

text \<open>
  \<^bold>\<open>Claim C8\<close> (no orphan internals). In every trie built from the empty trie by a
  sequence of \<open>Put\<close> and \<open>Remove\<close> calls of the public interface, every node without
  payload has a non-empty child map; and a further \<open>Put\<close> or \<open>Remove\<close> on such a trie
  gives a trie with the same property. (Lemmas \<open>no_orphan_Put\<close> and \<open>no_orphan_Remove\<close>
  state the two preservation steps on their own.)
\<close>

theorem no_orphan_internals_reachable:
  "list_all public_op ops \<Longrightarrow>
     no_orphan_internals (run_ops ops)
   \<and> no_orphan_internals (Put (run_ops ops) K V)
   \<and> no_orphan_internals (Remove (run_ops ops) K2)"
proof -
  assume "list_all public_op ops"
  then have "public_inv (run_ops ops)" by (rule public_inv_run_ops)
  then show ?thesis
    by (simp add: public_inv_def no_orphan_Put no_orphan_Remove trie_payload_types_ladder)
qed

theorem no_orphan_internals_reachable_witness:
  "list_all public_op [Put_op ''ab'' (V_uint32 1), Put_op ''a'' (V_string ''x''), Remove_op ''ab'']
   \<and> run_ops [Put_op ''ab'' (V_uint32 1), Put_op ''a'' (V_string ''x''), Remove_op ''ab'']
       = Trie (Some (TrieNode [(CHR ''a'', TrieNodeWithValue [] (V_string ''x''))]))
   \<and> no_orphan_internals
        (run_ops [Put_op ''ab'' (V_uint32 1), Put_op ''a'' (V_string ''x''), Remove_op ''ab''])
   \<and> no_orphan_internals
        (Put (run_ops [Put_op ''ab'' (V_uint32 1), Put_op ''a'' (V_string ''x''), Remove_op ''ab''])
           ''b'' (V_uint64 5))
   \<and> no_orphan_internals
        (Remove (run_ops [Put_op ''ab'' (V_uint32 1), Put_op ''a'' (V_string ''x''), Remove_op ''ab''])
           ''a'')"
proof -
  have h: "list_all public_op
      [Put_op ''ab'' (V_uint32 1), Put_op ''a'' (V_string ''x''), Remove_op ''ab'']"
    by (simp add: instantiated_def)
  have r: "run_ops [Put_op ''ab'' (V_uint32 1), Put_op ''a'' (V_string ''x''), Remove_op ''ab'']
       = Trie (Some (TrieNode [(CHR ''a'', TrieNodeWithValue [] (V_string ''x''))]))"
    by (simp add: run_ops_def empty_trie_def Put_def Remove_def CreateNodeWithNewChildren_def)
  show ?thesis
    using h r no_orphan_internals_reachable [OF h, of "''b''" "V_uint64 5" "''a''"]
    by simp
qed

section \<open>The fallback branch of the rebuild helper\<close>

lemma fst_PutHelper_traced: "fst (PutHelper_traced node key v) = PutHelper node key v"
proof (induction key arbitrary: node)
  case Nil
  show ?case by (simp split: option.splits)
next
  case (Cons c cs)
  show ?case
    using Cons.IH[of None] Cons.IH[of "Some it" for it]
    by (simp add: Let_def split_beta split: option.splits)
qed

lemma fst_RemoveHelper_traced: "fst (RemoveHelper_traced node key) = RemoveHelper node key"
proof (induction node key rule: RemoveHelper_traced.induct)
  case (1 key)
  show ?case by simp
next
  case (2 n)
  show ?case by simp
next
  case (3 n c cs)
  show ?case
  proof (cases "map_of (children n) c")
    case None
    then show ?thesis by simp
  next
    case (Some it)
    show ?thesis using "3.IH"[OF Some] Some
      by (simp add: Let_def split_beta)
  qed
qed

lemma fallback_taken_iff:
  "fallback_taken (Some n) = (is_value_node n \<and> \<not> in_ladder (type_of (node_value n)))"
  by (cases n) (auto simp add: fallback_taken_def in_ladder_def)

lemma no_fallback:
  "pred_option (payload_types in_ladder) node \<Longrightarrow> \<not> fallback_taken node"
proof (cases node)
  case None
  then show ?thesis by (simp add: fallback_taken_def)
next
  case (Some n)
  assume "pred_option (payload_types in_ladder) node"
  then show ?thesis unfolding Some by (cases n) (simp_all add: fallback_taken_iff)
qed

lemma PutHelper_traced_Cons:
  "PutHelper_traced node (c # cs) v =
     (CreateNodeWithNewChildren node
        (AList.update c (fst (PutHelper_traced (map_of (kids node) c) cs v)) (kids node)),
      snd (PutHelper_traced (map_of (kids node) c) cs v) \<or> fallback_taken node)"
  by (simp add: kids_def Let_def split_beta split: option.splits)

lemma PutHelper_no_fallback:
  "pred_option (payload_types in_ladder) node \<Longrightarrow> \<not> snd (PutHelper_traced node key v)"
proof (induction key arbitrary: node)
  case Nil
  show ?case by (simp split: option.splits)
next
  case (Cons c cs)
  from Cons.prems have "pred_option (payload_types in_ladder) (map_of (kids node) c)"
    by (rule payload_types_kid)
  then have "\<not> snd (PutHelper_traced (map_of (kids node) c) cs v)" by (rule Cons.IH)
  with Cons.prems show ?case
    unfolding PutHelper_traced_Cons by (simp add: no_fallback)
qed

lemma RemoveHelper_no_fallback:
  "pred_option (payload_types in_ladder) node \<Longrightarrow> \<not> snd (RemoveHelper_traced node key)"
proof (induction node key rule: RemoveHelper_traced.induct)
  case (1 key)
  show ?case by simp
next
  case (2 n)
  show ?case by simp
next
  case (3 n c cs)
  show ?case
  proof (cases "map_of (children n) c")
    case None
    then show ?thesis by simp
  next
    case (Some it)
    then have "(c, it) \<in> set (children n)" by (rule map_of_SomeD)
    with "3.prems" have "pred_option (payload_types in_ladder) (Some it)"
      by (auto dest: payload_types_children)
    then have "\<not> snd (RemoveHelper_traced (Some it) cs)" by (rule "3.IH"[OF Some])
    with "3.prems" no_fallback[of "Some n"] show ?thesis using Some
      by (simp add: Let_def split_beta)
  qed
qed

lemma payload_types_walk:
  "payload_types P r \<Longrightarrow> walk r key = Some n \<Longrightarrow> payload_types P n"
proof (induction key arbitrary: r)
  case Nil
  then show ?case by simp
next
  case (Cons c cs)
  from Cons.prems(2) obtain it where it: "map_of (children r) c = Some it" "walk it cs = Some n"
    by (auto split: option.splits)
  from it(1) have "(c, it) \<in> set (children r)" by (rule map_of_SomeD)
  with Cons.prems(1) have "payload_types P it" by (rule payload_types_children)
  then show ?case using it(2) by (rule Cons.IH)
qed

text \<open>The branch itself is live code: on a tree that holds a payload of a type outside the
  ladder, a \<open>Put\<close> below that node takes it and the payload is lost. Such a tree cannot be
  built through \<open>Put\<close> at its three instantiations, which is what the claim below is about,
  and why the properties of lookups above are stated for the type tags of the ladder or
  for trees without such payloads.\<close>

lemma unlisted_payload_dropped:
  "Get (other_t 0) (Trie (Some (TrieNodeWithValue [] (V_unlisted 0 5)))) [] = Some (V_unlisted 0 5)
   \<and> Get (other_t 0)
         (Put (Trie (Some (TrieNodeWithValue [] (V_unlisted 0 5)))) ''a'' (V_uint32 1)) [] = None
   \<and> snd (PutHelper_traced (Some (TrieNodeWithValue [] (V_unlisted 0 5))) ''a'' (V_uint32 1))"
  by (simp add: Get_def Put_def CreateNodeWithNewChildren_def fallback_taken_def)

text \<open>
  \<^bold>\<open>Claim C10\<close> (the payload-dropping fallback is unreachable). On every trie built from
  the empty trie by \<open>Put\<close> calls at the three instantiated types and \<open>Remove\<close> calls, no
  call of \<open>CreateNodeWithNewChildren\<close> made by a further \<open>Put\<close> or \<open>Remove\<close> leaves through
  its last \<open>return\<close>; every payload in the trie has an instantiated type; and rebuilding
  any value node of the trie with a new child map gives a value node with the same
  payload.
\<close>

theorem payload_fallback_unreachable:
  "list_all public_op ops \<Longrightarrow>
     \<not> snd (PutHelper_traced (trie_root (run_ops ops)) K V)
   \<and> \<not> snd (RemoveHelper_traced (trie_root (run_ops ops)) K2)
   \<and> trie_payload_types instantiated (run_ops ops)
   \<and> (\<forall>r P n ch. trie_root (run_ops ops) = Some r \<longrightarrow> walk r P = Some n \<longrightarrow>
         is_value_node n \<longrightarrow>
         CreateNodeWithNewChildren (Some n) ch = TrieNodeWithValue ch (node_value n))"
proof -
  assume "list_all public_op ops"
  then have "public_inv (run_ops ops)" by (rule public_inv_run_ops)
  then have inst: "trie_payload_types instantiated (run_ops ops)"
    by (simp add: public_inv_def)
  then have lad: "trie_payload_types in_ladder (run_ops ops)"
    by (rule trie_payload_types_ladder)
  then have opt: "pred_option (payload_types in_ladder) (trie_root (run_ops ops))"
    by (simp add: trie_payload_types_def split: option.splits)
  have keep: "CreateNodeWithNewChildren (Some n) ch = TrieNodeWithValue ch (node_value n)"
    if "trie_root (run_ops ops) = Some r" "walk r P = Some n" "is_value_node n" for r P n ch
  proof -
    from lad that(1) have "payload_types in_ladder r" by (simp add: trie_payload_types_def)
    then have "payload_types in_ladder n" using that(2) by (rule payload_types_walk)
    with that(3) have "in_ladder (type_of (node_value n))" by (cases n) simp_all
    with that(3) show ?thesis by (simp add: Create_Some)
  qed
  show ?thesis
    using inst PutHelper_no_fallback[OF opt] RemoveHelper_no_fallback[OF opt] keep by blast
qed

theorem payload_fallback_unreachable_witness:
  "list_all public_op [Put_op ''a'' (V_uint64 9)]
   \<and> run_ops [Put_op ''a'' (V_uint64 9)]
       = Trie (Some (TrieNode [(CHR ''a'', TrieNodeWithValue [] (V_uint64 9))]))
   \<and> PutHelper_traced (trie_root (run_ops [Put_op ''a'' (V_uint64 9)])) ''ab'' (V_string ''s'')
       = (TrieNode [(CHR ''a'',
            TrieNodeWithValue [(CHR ''b'', TrieNodeWithValue [] (V_string ''s''))] (V_uint64 9))],
          False)
   \<and> \<not> snd (RemoveHelper_traced (trie_root (run_ops [Put_op ''a'' (V_uint64 9)])) ''a'')"
proof -
  have h: "list_all public_op [Put_op ''a'' (V_uint64 9)]"
    by (simp add: instantiated_def)
  have r: "run_ops [Put_op ''a'' (V_uint64 9)]
       = Trie (Some (TrieNode [(CHR ''a'', TrieNodeWithValue [] (V_uint64 9))]))"
    by (simp add: run_ops_def empty_trie_def Put_def CreateNodeWithNewChildren_def)
  have p: "PutHelper_traced (trie_root (run_ops [Put_op ''a'' (V_uint64 9)])) ''ab'' (V_string ''s'')
       = (TrieNode [(CHR ''a'',
            TrieNodeWithValue [(CHR ''b'', TrieNodeWithValue [] (V_string ''s''))] (V_uint64 9))],
          False)"
    by (simp add: r CreateNodeWithNewChildren_def fallback_taken_def)
  show ?thesis
    using h r p payload_fallback_unreachable [OF h, of "''ab''" "V_string ''s''" "''a''"]
    by simp
qed

section \<open>Structural sharing of Put\<close>


lemma wf_storeD: "wf_store s \<Longrightarrow> a < allocated s \<Longrightarrow> (c, b) \<in> set (cell_children (cells s a)) \<Longrightarrow> b < a"
  by (auto simp add: wf_store_def list_all_iff)

lemma wf_storeI:
  "(\<And>a c b. a < allocated s \<Longrightarrow> (c, b) \<in> set (cell_children (cells s a)) \<Longrightarrow> b < a) \<Longrightarrow> wf_store s"
  by (auto simp add: wf_store_def list_all_iff)

lemma extends_refl [simp]: "extends s s"
  by (simp add: extends_def)

lemma extends_trans: "extends s s1 \<Longrightarrow> extends s1 s2 \<Longrightarrow> extends s s2"
  by (auto simp add: extends_def)

lemma make_shared_props:
  "make_shared n s = (a, s') \<Longrightarrow>
     a = allocated s \<and> allocated s' = Suc (allocated s) \<and> cells s' a = n \<and> extends s s'"
  by (auto simp add: make_shared_def extends_def)

lemma Create_st_props:
  assumes "CreateNodeWithNewChildren_st node ch s = (a, s')"
  shows "a = allocated s" "allocated s' = Suc (allocated s)" "extends s s'"
    "cell_children (cells s' a) = ch"
  using assms
  by (auto simp add: CreateNodeWithNewChildren_st_def make_shared_def extends_def
      split: option.splits if_splits)

lemma PutHelper_st_Cons:
  "PutHelper_st node (c # cs) v s =
     CreateNodeWithNewChildren_st node
       (AList.update c (fst (PutHelper_st (map_of (kids_st s node) c) cs v s)) (kids_st s node))
       (snd (PutHelper_st (map_of (kids_st s node) c) cs v s))"
  by (simp add: kids_st_def Let_def split_beta split: option.splits)

lemma PutHelper_st_alloc:
  "PutHelper_st node key v s = (a, s') \<Longrightarrow>
     allocated s' = allocated s + length key + 1 \<and> Suc a = allocated s' \<and> extends s s'"
proof (induction key arbitrary: node s a s')
  case Nil
  then show ?case by (auto simp add: make_shared_def extends_def split: option.splits)
next
  case (Cons c cs)
  obtain child s1 where r: "PutHelper_st (map_of (kids_st s node) c) cs v s = (child, s1)"
    by (cases "PutHelper_st (map_of (kids_st s node) c) cs v s")
  from Cons.IH[OF r] have ih: "allocated s1 = allocated s + length cs + 1" "extends s s1" by simp_all
  from Cons.prems have cr:
    "CreateNodeWithNewChildren_st node (AList.update c child (kids_st s node)) s1 = (a, s')"
    by (simp only: PutHelper_st_Cons r fst_conv snd_conv)
  from Create_st_props[OF cr] ih show ?case by (auto intro: extends_trans)
qed

lemma extendsD: "extends s s' \<Longrightarrow> a < allocated s \<Longrightarrow> cells s' a = cells s a"
  by (simp add: extends_def)

lemma extends_le: "extends s s' \<Longrightarrow> allocated s \<le> allocated s'"
  by (simp add: extends_def)

lemma walk_st_extends:
  "wf_store s \<Longrightarrow> a < allocated s \<Longrightarrow> extends s s' \<Longrightarrow> walk_st s' a key = walk_st s a key"
proof (induction key arbitrary: a)
  case Nil
  show ?case by simp
next
  case (Cons c cs)
  have same: "cells s' a = cells s a" using Cons.prems(2,3) by (simp add: extendsD)
  show ?case
  proof (cases "map_of (cell_children (cells s a)) c")
    case None
    then show ?thesis by (simp add: same)
  next
    case (Some it)
    then have "(c, it) \<in> set (cell_children (cells s a))" by (rule map_of_SomeD)
    with Cons.prems have "it < a" by (auto dest: wf_storeD)
    with Cons.prems have "it < allocated s" by simp
    with Cons.IH[OF Cons.prems(1) this Cons.prems(3)] Some show ?thesis by (simp add: same)
  qed
qed

lemma walk_st_valid:
  "wf_store s \<Longrightarrow> a < allocated s \<Longrightarrow> walk_st s a key = Some x \<Longrightarrow> x < allocated s"
proof (induction key arbitrary: a)
  case Nil
  then show ?case by simp
next
  case (Cons c cs)
  from Cons.prems(3) obtain it where it: "map_of (cell_children (cells s a)) c = Some it"
    "walk_st s it cs = Some x" by (auto split: option.splits)
  from it(1) have "(c, it) \<in> set (cell_children (cells s a))" by (rule map_of_SomeD)
  with Cons.prems have "it < a" by (auto dest: wf_storeD)
  with Cons.prems have "it < allocated s" by simp
  from Cons.IH[OF Cons.prems(1) this it(2)] show ?case .
qed

lemma Get_st_extends:
  assumes "wf_store s" "valid_handle s root" "extends s s'"
  shows "Get_st T s' root key = Get_st T s root key"
proof (cases root)
  case None
  then show ?thesis by (simp add: Get_st_def)
next
  case (Some r)
  with assms have r: "r < allocated s" by (simp add: valid_handle_def)
  have w: "walk_st s' r key = walk_st s r key" using assms(1) r assms(3) by (rule walk_st_extends)
  show ?thesis
  proof (cases "walk_st s r key")
    case None
    then show ?thesis by (simp add: Get_st_def Some w)
  next
    case (Some x)
    with assms(1) r have "x < allocated s" by (auto dest: walk_st_valid)
    with assms(3) have "cells s' x = cells s x" by (simp add: extendsD)
    then show ?thesis by (simp add: Get_st_def \<open>root = Some r\<close> w Some)
  qed
qed

lemma wf_store_alloc:
  assumes "wf_store s" "extends s s'" "allocated s' = Suc (allocated s)"
    and new: "\<And>c b. (c, b) \<in> set (cell_children (cells s' (allocated s))) \<Longrightarrow> b < allocated s"
  shows "wf_store s'"
proof (rule wf_storeI)
  fix a c b
  assume a: "a < allocated s'" and m: "(c, b) \<in> set (cell_children (cells s' a))"
  show "b < a"
  proof (cases "a < allocated s")
    case True
    with assms(2) have "cells s' a = cells s a" by (simp add: extendsD)
    with assms(1) True m show ?thesis by (auto dest: wf_storeD)
  next
    case False
    with a assms(3) have "a = allocated s" by simp
    with m new show ?thesis by simp
  qed
qed

lemma kids_st_bound:
  "wf_store s \<Longrightarrow> valid_handle s node \<Longrightarrow> (c, b) \<in> set (kids_st s node) \<Longrightarrow> b < allocated s"
  by (cases node) (auto simp add: kids_st_def valid_handle_def dest: wf_storeD)

lemma kid_valid:
  "wf_store s \<Longrightarrow> valid_handle s node \<Longrightarrow> valid_handle s (map_of (kids_st s node) c)"
proof (cases "map_of (kids_st s node) c")
  case None
  then show ?thesis by (simp add: valid_handle_def)
next
  case (Some it)
  assume "wf_store s" "valid_handle s node"
  moreover from Some have "(c, it) \<in> set (kids_st s node)" by (rule map_of_SomeD)
  ultimately have "it < allocated s" by (rule kids_st_bound)
  with Some show ?thesis by (simp add: valid_handle_def)
qed

lemma wf_PutHelper_st:
  "wf_store s \<Longrightarrow> valid_handle s node \<Longrightarrow> PutHelper_st node key v s = (a, s') \<Longrightarrow> wf_store s'"
proof (induction key arbitrary: node a s')
  case Nil
  from PutHelper_st_alloc[OF Nil.prems(3)]
  have al: "allocated s' = Suc (allocated s)" "extends s s'" by simp_all
  have "cell_children (cells s' (allocated s)) = kids_st s node"
    using Nil.prems(3) by (auto simp add: make_shared_def kids_st_def split: option.splits)
  with Nil.prems(1,2) show ?case
    by (intro wf_store_alloc[OF Nil.prems(1) al(2) al(1)]) (auto dest: kids_st_bound)
next
  case (Cons c cs)
  obtain child s1 where r: "PutHelper_st (map_of (kids_st s node) c) cs v s = (child, s1)"
    by (cases "PutHelper_st (map_of (kids_st s node) c) cs v s")
  have wf1: "wf_store s1"
    using Cons.prems(1) kid_valid[OF Cons.prems(1,2)] r by (rule Cons.IH)
  from PutHelper_st_alloc[OF r]
  have al1: "allocated s1 = allocated s + length cs + 1" "Suc child = allocated s1" by simp_all
  from Cons.prems(3) have cr:
    "CreateNodeWithNewChildren_st node (AList.update c child (kids_st s node)) s1 = (a, s')"
    by (simp only: PutHelper_st_Cons r fst_conv snd_conv)
  note cp = Create_st_props[OF cr]
  show ?case
  proof (rule wf_store_alloc[OF wf1 cp(3) cp(2)])
    fix d b
    assume "(d, b) \<in> set (cell_children (cells s' (allocated s1)))"
    then have "(d, b) \<in> set (AList.update c child (kids_st s node))"
      using cp(1,4) by simp
    then have "(d, b) = (c, child) \<or> (d, b) \<in> set (kids_st s node)" by (rule in_set_update)
    then show "b < allocated s1"
      using al1 kids_st_bound[OF Cons.prems(1,2), of d b] by auto
  qed
qed

lemma PutHelper_st_sharing:
  "wf_store s \<Longrightarrow> a0 < allocated s \<Longrightarrow> PutHelper_st (Some a0) (P @ rest) v s = (r', s') \<Longrightarrow>
   walk_st s a0 P = Some x \<Longrightarrow>
   \<exists>x'. walk_st s' r' P = Some x'
     \<and> (\<forall>b. rest = [] \<or> b \<noteq> hd rest \<longrightarrow>
           map_of (cell_children (cells s' x')) b = map_of (cell_children (cells s x)) b)"
proof (induction P arbitrary: a0 r' s')
  case Nil
  then have x: "x = a0" by simp
  show ?case
  proof (cases rest)
    case Nil
    with Nil.prems(3) have "cell_children (cells s' r') = cell_children (cells s a0)"
      by (auto simp add: make_shared_def)
    then show ?thesis by (simp add: x)
  next
    case (Cons c cs)
    obtain child s1 where r: "PutHelper_st (map_of (kids_st s (Some a0)) c) cs v s = (child, s1)"
      by (cases "PutHelper_st (map_of (kids_st s (Some a0)) c) cs v s")
    from Nil.prems(3) have cr:
      "CreateNodeWithNewChildren_st (Some a0) (AList.update c child (kids_st s (Some a0))) s1 = (r', s')"
      unfolding Cons by (simp only: append_Nil PutHelper_st_Cons r fst_conv snd_conv)
    from Create_st_props(4)[OF cr] show ?thesis
      by (simp add: x Cons update_conv' kids_st_def)
  qed
next
  case (Cons p ps)
  from Cons.prems(4) obtain it where it: "map_of (cell_children (cells s a0)) p = Some it"
    "walk_st s it ps = Some x" by (auto split: option.splits)
  from it(1) have "(p, it) \<in> set (cell_children (cells s a0))" by (rule map_of_SomeD)
  with Cons.prems(1,2) have "it < a0" by (auto dest: wf_storeD)
  with Cons.prems(2) have itv: "it < allocated s" by simp
  have k: "map_of (kids_st s (Some a0)) p = Some it" using it(1) by (simp add: kids_st_def)
  obtain child s1 where r: "PutHelper_st (Some it) (ps @ rest) v s = (child, s1)"
    by (cases "PutHelper_st (Some it) (ps @ rest) v s")
  from Cons.prems(3) have cr:
    "CreateNodeWithNewChildren_st (Some a0) (AList.update p child (kids_st s (Some a0))) s1 = (r', s')"
    by (simp only: append_Cons PutHelper_st_Cons k r fst_conv snd_conv)
  note cp = Create_st_props[OF cr]
  from Cons.IH[OF Cons.prems(1) itv r it(2)] obtain x' where x':
    "walk_st s1 child ps = Some x'"
    "\<forall>b. rest = [] \<or> b \<noteq> hd rest \<longrightarrow>
        map_of (cell_children (cells s1 x')) b = map_of (cell_children (cells s x)) b"
    by blast
  have wf1: "wf_store s1"
    using Cons.prems(1) _ r by (rule wf_PutHelper_st) (simp add: valid_handle_def itv)
  have cv: "child < allocated s1" using PutHelper_st_alloc[OF r] by simp
  have w: "walk_st s' child ps = walk_st s1 child ps"
    using wf1 cv cp(3) by (rule walk_st_extends)
  have "x' < allocated s1" using wf1 cv x'(1) by (rule walk_st_valid)
  then have same: "cells s' x' = cells s1 x'" using cp(3) by (simp add: extendsD)
  have "walk_st s' r' (p # ps) = Some x'"
    using cp(4) w x'(1) by (simp add: update_conv')
  with x'(2) same show ?case by auto
qed

declare tree_of.simps [simp del]

lemma filter_wf:
  "wf_store s \<Longrightarrow> a < allocated s \<Longrightarrow>
   filter (\<lambda>(c, b). b < a) (cell_children (cells s a)) = cell_children (cells s a)"
  by (rule filter_True) (auto dest: wf_storeD)

lemma tree_of_wf:
  assumes "wf_store s" "a < allocated s"
  shows "children (tree_of s a) = map (\<lambda>(c, b). (c, tree_of s b)) (cell_children (cells s a))"
    and "is_value_node (tree_of s a) = cell_is_value_node (cells s a)"
    and "dynamic_cast T (tree_of s a) = cell_dynamic_cast T (cells s a)"
  using filter_wf[OF assms]
  by (subst tree_of.simps; cases "cells s a"; simp)+

lemma tree_of_extends:
  "wf_store s \<Longrightarrow> a < allocated s \<Longrightarrow> extends s s' \<Longrightarrow> tree_of s' a = tree_of s a"
proof (induction a rule: less_induct)
  case (less a)
  have same: "cells s' a = cells s a" using less.prems by (simp add: extendsD)
  have sub: "tree_of s' b = tree_of s b" if "b < a" for b
    using less.IH[OF that less.prems(1) _ less.prems(3)] that less.prems(2) by simp
  show ?case
    unfolding tree_of.simps[of s' a] tree_of.simps[of s a] same
    by (auto split: cell.splits simp add: sub)
qed

lemma map_of_map_snd:
  "map_of (map (\<lambda>(c, b). (c, f b)) al) k = map_option f (map_of al k)"
  by (induction al) auto

lemma update_map_snd:
  "AList.update k (f v) (map (\<lambda>(c, b). (c, f b)) al) = map (\<lambda>(c, b). (c, f b)) (AList.update k v al)"
  by (induction al) auto

lemma walk_tree_of:
  "wf_store s \<Longrightarrow> a < allocated s \<Longrightarrow>
   walk (tree_of s a) key = map_option (tree_of s) (walk_st s a key)"
proof (induction key arbitrary: a)
  case Nil
  show ?case by simp
next
  case (Cons c cs)
  show ?case
  proof (cases "map_of (cell_children (cells s a)) c")
    case None
    then show ?thesis by (simp add: tree_of_wf(1)[OF Cons.prems] map_of_map_snd)
  next
    case (Some it)
    then have "(c, it) \<in> set (cell_children (cells s a))" by (rule map_of_SomeD)
    with Cons.prems have "it < a" by (auto dest: wf_storeD)
    with Cons.prems have "it < allocated s" by simp
    from Cons.IH[OF Cons.prems(1) this] Some show ?thesis
      by (simp add: tree_of_wf(1)[OF Cons.prems] map_of_map_snd)
  qed
qed

lemma Get_st_refines:
  assumes "wf_store s" "valid_handle s root"
  shows "Get_st T s root key = Get T (trie_of s root) key"
proof (cases root)
  case None
  then show ?thesis by (simp add: Get_st_def Get_def trie_of_def)
next
  case (Some r)
  with assms have r: "r < allocated s" by (simp add: valid_handle_def)
  show ?thesis
  proof (cases "walk_st s r key")
    case None
    then show ?thesis
      by (simp add: Get_st_def Get_def trie_of_def Some walk_tree_of[OF assms(1) r])
  next
    case w: (Some x)
    with assms(1) r have "x < allocated s" by (auto dest: walk_st_valid)
    from tree_of_wf(2,3)[OF assms(1) this] w show ?thesis
      by (simp add: Get_st_def Get_def trie_of_def Some walk_tree_of[OF assms(1) r])
  qed
qed

lemma kids_tree_of:
  "wf_store s \<Longrightarrow> valid_handle s node \<Longrightarrow>
   kids (map_option (tree_of s) node) = map (\<lambda>(c, b). (c, tree_of s b)) (kids_st s node)"
  by (cases node) (simp_all add: kids_def kids_st_def valid_handle_def tree_of_wf(1))

lemma Create_st_new_cell:
  "CreateNodeWithNewChildren_st node ch s = make_shared (new_cell s node ch) s"
  by (simp add: CreateNodeWithNewChildren_st_def new_cell_def split: option.splits)

lemma tree_of_fresh:
  assumes wf: "wf_store s" and ms: "make_shared n s = (a, s')"
    and ch: "\<And>c b. (c, b) \<in> set (cell_children n) \<Longrightarrow> b < allocated s"
  shows "tree_of s' a =
     (case n of
        Cell_TrieNode ch \<Rightarrow> TrieNode (map (\<lambda>(c, b). (c, tree_of s b)) ch)
      | Cell_TrieNodeWithValue ch x \<Rightarrow> TrieNodeWithValue (map (\<lambda>(c, b). (c, tree_of s b)) ch) x)"
proof -
  note mp = make_shared_props[OF ms]
  have ext: "extends s s'" using mp by simp
  have a: "a = allocated s" using mp by simp
  have f: "filter (\<lambda>(c, b). b < a) (cell_children n) = cell_children n"
    unfolding a by (rule filter_True) (auto dest: ch)
  have m: "map (\<lambda>(c, b). (c, tree_of s' b)) (cell_children n)
      = map (\<lambda>(c, b). (c, tree_of s b)) (cell_children n)"
    by (rule map_cong) (auto dest: ch simp add: tree_of_extends[OF wf _ ext])
  have c: "cells s' a = n" using mp by blast
  show ?thesis
    unfolding tree_of.simps[of s' a] c using f m by (cases n) simp_all
qed

lemma Create_st_refines:
  assumes wf: "wf_store s" and v: "valid_handle s node"
    and cr: "CreateNodeWithNewChildren_st node ch s = (a, s')"
    and ch: "\<And>c b. (c, b) \<in> set ch \<Longrightarrow> b < allocated s"
  shows "tree_of s' a =
     CreateNodeWithNewChildren (map_option (tree_of s) node) (map (\<lambda>(c, b). (c, tree_of s b)) ch)"
proof -
  have nc: "cell_children (new_cell s node ch) = ch"
    by (simp add: new_cell_def split: option.splits)
  have t: "tree_of s' a =
     (case new_cell s node ch of
        Cell_TrieNode ch \<Rightarrow> TrieNode (map (\<lambda>(c, b). (c, tree_of s b)) ch)
      | Cell_TrieNodeWithValue ch x \<Rightarrow> TrieNodeWithValue (map (\<lambda>(c, b). (c, tree_of s b)) ch) x)"
    using wf cr[unfolded Create_st_new_cell] by (rule tree_of_fresh) (simp add: nc ch)
  show ?thesis
  proof (cases node)
    case None
    show ?thesis unfolding t by (simp add: None new_cell_def CreateNodeWithNewChildren_def)
  next
    case (Some a0)
    with v have a0: "a0 < allocated s" by (simp add: valid_handle_def)
    note tw = tree_of_wf(2,3)[OF wf a0]
    show ?thesis unfolding t
      by (simp add: Some new_cell_def CreateNodeWithNewChildren_def tw split: option.splits)
  qed
qed

lemma PutHelper_st_refines:
  "wf_store s \<Longrightarrow> valid_handle s node \<Longrightarrow> PutHelper_st node key v s = (a, s') \<Longrightarrow>
   tree_of s' a = PutHelper (map_option (tree_of s) node) key v"
proof (induction key arbitrary: node a s')
  case Nil
  have ms: "make_shared (Cell_TrieNodeWithValue (kids_st s node) v) s = (a, s')"
    using Nil.prems(3) by (simp add: kids_st_def split: option.splits)
  have "tree_of s' a = TrieNodeWithValue (map (\<lambda>(c, b). (c, tree_of s b)) (kids_st s node)) v"
    using tree_of_fresh[OF Nil.prems(1) ms] kids_st_bound[OF Nil.prems(1,2)] by simp
  also have "\<dots> = TrieNodeWithValue (kids (map_option (tree_of s) node)) v"
    by (simp add: kids_tree_of[OF Nil.prems(1,2)])
  also have "\<dots> = PutHelper (map_option (tree_of s) node) [] v"
    by (cases node) (simp_all add: kids_def)
  finally show ?case .
next
  case (Cons c cs)
  let ?f = "\<lambda>(c, b). (c, tree_of s b)"
  obtain child s1 where r: "PutHelper_st (map_of (kids_st s node) c) cs v s = (child, s1)"
    by (cases "PutHelper_st (map_of (kids_st s node) c) cs v s")
  have kv: "valid_handle s (map_of (kids_st s node) c)" using Cons.prems(1,2) by (rule kid_valid)
  have ih: "tree_of s1 child = PutHelper (map_option (tree_of s) (map_of (kids_st s node) c)) cs v"
    using Cons.prems(1) kv r by (rule Cons.IH)
  have wf1: "wf_store s1" using Cons.prems(1) kv r by (rule wf_PutHelper_st)
  note al = PutHelper_st_alloc[OF r]
  have ext: "extends s s1" using al by simp
  have v1: "valid_handle s1 node"
    using Cons.prems(2) extends_le[OF ext] by (auto simp add: valid_handle_def split: option.splits)
  from Cons.prems(3) have cr:
    "CreateNodeWithNewChildren_st node (AList.update c child (kids_st s node)) s1 = (a, s')"
    by (simp only: PutHelper_st_Cons r fst_conv snd_conv)
  have bound: "b < allocated s1" if "(d, b) \<in> set (AList.update c child (kids_st s node))" for d b
  proof -
    from that have "(d, b) = (c, child) \<or> (d, b) \<in> set (kids_st s node)" by (rule in_set_update)
    then show ?thesis
      using al kids_st_bound[OF Cons.prems(1,2), of d b] by auto
  qed
  have same: "tree_of s1 b = tree_of s b" if "b < allocated s" for b
    using Cons.prems(1) that ext by (rule tree_of_extends)
  have node_same: "map_option (tree_of s1) node = map_option (tree_of s) node"
    using Cons.prems(2) by (cases node) (simp_all add: valid_handle_def same)
  have "map (\<lambda>(c, b). (c, tree_of s1 b)) (AList.update c child (kids_st s node))
      = AList.update c (tree_of s1 child) (map (\<lambda>(c, b). (c, tree_of s1 b)) (kids_st s node))"
    by (simp add: update_map_snd)
  also have "map (\<lambda>(c, b). (c, tree_of s1 b)) (kids_st s node) = map ?f (kids_st s node)"
    by (rule map_cong) (auto dest: kids_st_bound[OF Cons.prems(1,2)] simp add: same)
  finally have ch: "map (\<lambda>(c, b). (c, tree_of s1 b)) (AList.update c child (kids_st s node))
      = AList.update c (tree_of s1 child) (kids (map_option (tree_of s) node))"
    by (simp add: kids_tree_of[OF Cons.prems(1,2)])
  have look: "map_of (kids (map_option (tree_of s) node)) c
      = map_option (tree_of s) (map_of (kids_st s node) c)"
    by (simp add: kids_tree_of[OF Cons.prems(1,2)] map_of_map_snd)
  have "tree_of s' a =
      CreateNodeWithNewChildren (map_option (tree_of s1) node)
        (map (\<lambda>(c, b). (c, tree_of s1 b)) (AList.update c child (kids_st s node)))"
    using wf1 v1 cr bound by (rule Create_st_refines)
  then show ?case
    unfolding PutHelper_Cons by (simp only: ch node_same look ih)
qed

lemma valid_handle_extends: "valid_handle s h \<Longrightarrow> extends s s' \<Longrightarrow> valid_handle s' h"
  by (auto simp add: valid_handle_def extends_def split: option.splits)

lemma filter_key_map_snd:
  "filter (\<lambda>(ch, child). ch \<noteq> c) (map (\<lambda>(c, b). (c, f b)) al)
     = map (\<lambda>(c, b). (c, f b)) (filter (\<lambda>(ch, child). ch \<noteq> c) al)"
  by (induction al) auto

lemma RemoveHelper_st_props:
  "wf_store s \<Longrightarrow> valid_handle s node \<Longrightarrow> RemoveHelper_st node key s = (r, s') \<Longrightarrow>
     wf_store s' \<and> valid_handle s' r \<and> extends s s'
     \<and> map_option (tree_of s') r = RemoveHelper (map_option (tree_of s) node) key"
proof (induction node key s arbitrary: r s' rule: RemoveHelper_st.induct)
  case (1 key s)
  then show ?case by (simp add: valid_handle_def)
next
  case (2 a s)
  from "2.prems"(2) have a: "a < allocated s" by (simp add: valid_handle_def)
  have ch: "children (tree_of s a) = map (\<lambda>(c, b). (c, tree_of s b)) (cell_children (cells s a))"
    using "2.prems"(1) a by (rule tree_of_wf(1))
  show ?case
  proof (cases "cell_children (cells s a) = []")
    case True
    from "2.prems"(3) True have "r = None" "s' = s" by simp_all
    with "2.prems"(1) True ch show ?thesis by (simp add: valid_handle_def)
  next
    case False
    obtain x s1 where ms: "make_shared (Cell_TrieNode (cell_children (cells s a))) s = (x, s1)"
      by (cases "make_shared (Cell_TrieNode (cell_children (cells s a))) s")
    with "2.prems"(3) False have rs: "r = Some x" "s' = s1" by simp_all
    note mp = make_shared_props[OF ms]
    have bound: "b < allocated s" if "(d, b) \<in> set (cell_children (cells s a))" for d b
      using wf_storeD[OF "2.prems"(1) a that] a by simp
    have wf': "wf_store s1"
      using "2.prems"(1) by (rule wf_store_alloc) (use mp bound in auto)
    have "tree_of s1 x = TrieNode (map (\<lambda>(c, b). (c, tree_of s b)) (cell_children (cells s a)))"
      using tree_of_fresh[OF "2.prems"(1) ms] bound by simp
    then show ?thesis
      using wf' mp False ch by (simp add: rs valid_handle_def)
  qed
next
  case (3 a c cs s)
  from "3.prems"(2) have a: "a < allocated s" by (simp add: valid_handle_def)
  note wf = "3.prems"(1)
  let ?f = "\<lambda>(c, b). (c, tree_of s b)"
  have look: "map_of (children (tree_of s a)) c
      = map_option (tree_of s) (map_of (cell_children (cells s a)) c)"
    by (simp add: tree_of_wf(1)[OF wf a] map_of_map_snd)
  show ?case
  proof (cases "map_of (cell_children (cells s a)) c")
    case None
    with "3.prems"(3) have rs: "r = Some a" "s' = s" by simp_all
    from look None have "RemoveHelper (Some (tree_of s a)) (c # cs) = Some (tree_of s a)" by simp
    with "3.prems"(1,2) show ?thesis by (simp add: rs)
  next
    case (Some it)
    then have mem: "(c, it) \<in> set (cell_children (cells s a))" by (rule map_of_SomeD)
    have itv: "valid_handle s (Some it)"
      using wf_storeD[OF wf a mem] a by (simp add: valid_handle_def)
    obtain new_child s1 where rr: "RemoveHelper_st (Some it) cs s = (new_child, s1)"
      by (cases "RemoveHelper_st (Some it) cs s")
    from "3.IH"[OF Some wf itv rr] have ih:
      "wf_store s1" "valid_handle s1 new_child" "extends s s1"
      "map_option (tree_of s1) new_child = RemoveHelper (Some (tree_of s it)) cs"
      by simp_all
    have same_a: "cells s1 a = cells s a" using ih(3) a by (simp add: extendsD)
    have a1: "a < allocated s1" using a extends_le[OF ih(3)] by simp
    define others where "others = filter (\<lambda>(ch, child). ch \<noteq> c) (cell_children (cells s a))"
    define new_children where
      "new_children = (case new_child of Some x \<Rightarrow> AList.update c x others | None \<Rightarrow> others)"
    have step: "RemoveHelper_st (Some a) (c # cs) s =
        (if \<not> cell_is_value_node (cells s a) \<and> new_children = [] then (None, s1)
         else (let (r, s2) = CreateNodeWithNewChildren_st (Some a) new_children s1
               in (Some r, s2)))"
      unfolding new_children_def others_def
      by (simp add: Some rr same_a Let_def cong: option.case_cong)
    have bound: "b < allocated s1" if "(d, b) \<in> set new_children" for d b
    proof -
      have k: "b < allocated s1" if "(d, b) \<in> set others" for d b
        using that wf_storeD[OF wf a, of d b] a1 a by (auto simp add: others_def)
      show ?thesis
      proof (cases new_child)
        case None
        with that k show ?thesis by (simp add: new_children_def)
      next
        case (Some x)
        with that have "(d, b) = (c, x) \<or> (d, b) \<in> set others"
          by (auto simp add: new_children_def dest: in_set_update)
        with k ih(2) Some show ?thesis by (auto simp add: valid_handle_def)
      qed
    qed
    have same: "tree_of s1 b = tree_of s b" if "b < allocated s" for b
      using wf that ih(3) by (rule tree_of_extends)
    have others_t: "map (\<lambda>(c, b). (c, tree_of s1 b)) others
        = filter (\<lambda>(ch, child). ch \<noteq> c) (children (tree_of s a))"
    proof -
      have "tree_of s1 b = tree_of s b" if "(d, b) \<in> set others" for d b
      proof -
        from that have "(d, b) \<in> set (cell_children (cells s a))" by (simp add: others_def)
        then have "b < a" using wf a by (auto dest: wf_storeD)
        with a show ?thesis by (simp add: same)
      qed
      then have "map (\<lambda>(c, b). (c, tree_of s1 b)) others = map ?f others"
        by (intro map_cong) auto
      then show ?thesis
        by (simp add: others_def tree_of_wf(1)[OF wf a] filter_key_map_snd)
    qed
    have nc_t: "map (\<lambda>(c, b). (c, tree_of s1 b)) new_children
        = (case RemoveHelper (Some (tree_of s it)) cs of
             Some x \<Rightarrow> AList.update c x (filter (\<lambda>(ch, child). ch \<noteq> c) (children (tree_of s a)))
           | None \<Rightarrow> filter (\<lambda>(ch, child). ch \<noteq> c) (children (tree_of s a)))"
      using ih(4)[symmetric]
      by (cases new_child) (simp_all add: new_children_def others_t update_map_snd[symmetric])
    have empty_iff: "(map (\<lambda>(c, b). (c, tree_of s1 b)) new_children = []) = (new_children = [])"
      by simp
    have tree_step: "RemoveHelper (Some (tree_of s a)) (c # cs) =
        (if \<not> is_value_node (tree_of s a) \<and> new_children = [] then None
         else Some (CreateNodeWithNewChildren (Some (tree_of s a))
                (map (\<lambda>(c, b). (c, tree_of s1 b)) new_children)))"
      using look Some by (simp add: Let_def nc_t[symmetric] del: map_is_Nil_conv)
    show ?thesis
    proof (cases "\<not> cell_is_value_node (cells s a) \<and> new_children = []")
      case True
      with "3.prems"(3) step have "r = None" "s' = s1" by simp_all
      with ih True tree_step show ?thesis
        by (simp add: valid_handle_def tree_of_wf(2)[OF wf a])
    next
      case False
      obtain x s2 where cr: "CreateNodeWithNewChildren_st (Some a) new_children s1 = (x, s2)"
        by (cases "CreateNodeWithNewChildren_st (Some a) new_children s1")
      with "3.prems"(3) step False have rs: "r = Some x" "s' = s2" by auto
      note cp = Create_st_props[OF cr]
      have a1v: "valid_handle s1 (Some a)" using a1 by (simp add: valid_handle_def)
      have wf2: "wf_store s2"
        using ih(1) cp(3) cp(2) by (rule wf_store_alloc) (use cp bound in auto)
      have "tree_of s2 x = CreateNodeWithNewChildren (map_option (tree_of s1) (Some a))
          (map (\<lambda>(c, b). (c, tree_of s1 b)) new_children)"
        using ih(1) a1v cr bound by (rule Create_st_refines)
      then have "tree_of s2 x = CreateNodeWithNewChildren (Some (tree_of s a))
          (map (\<lambda>(c, b). (c, tree_of s1 b)) new_children)"
        by (simp add: same[OF a])
      with False tree_step wf2 cp ih(3) show ?thesis
        by (auto simp add: rs valid_handle_def tree_of_wf(2)[OF wf a] intro: extends_trans)
    qed
  qed
qed

lemma wf_empty_store: "wf_store empty_store"
  by (simp add: wf_store_def empty_store_def)

lemma Put_st_represents:
  assumes "represents (root, s) t"
  shows "represents (Put_st root K V s) (Put t K V)"
proof -
  from assms have wf: "wf_store s" and v: "valid_handle s root" and t: "trie_of s root = t"
    by (simp_all add: represents_def)
  obtain r s' where p: "PutHelper_st root K V s = (r, s')" by (cases "PutHelper_st root K V s")
  have "wf_store s'" using wf v p by (rule wf_PutHelper_st)
  moreover have "valid_handle s' (Some r)"
    using PutHelper_st_alloc[OF p] by (simp add: valid_handle_def)
  moreover have "trie_of s' (Some r) = Put t K V"
    using PutHelper_st_refines[OF wf v p] t by (auto simp add: trie_of_def Put_def)
  ultimately show ?thesis by (simp add: represents_def Put_st_def p)
qed

lemma Remove_st_represents:
  assumes "represents (root, s) t"
  shows "represents (Remove_st root K s) (Remove t K)"
proof -
  from assms have wf: "wf_store s" and v: "valid_handle s root" and t: "trie_of s root = t"
    by (simp_all add: represents_def)
  obtain r s' where p: "RemoveHelper_st root K s = (r, s')" by (cases "RemoveHelper_st root K s")
  from RemoveHelper_st_props[OF wf v p] t show ?thesis
    by (auto simp add: represents_def Remove_st_def p trie_of_def Remove_def)
qed

lemma apply_op_st_represents:
  "represents h t \<Longrightarrow> represents (apply_op_st h x) (apply_op t x)"
  by (cases h; cases x) (simp_all add: Put_st_represents Remove_st_represents)

lemma foldl_represents:
  "represents h t \<Longrightarrow> represents (foldl apply_op_st h ops) (foldl apply_op t ops)"
  by (induction ops arbitrary: h t) (simp_all add: apply_op_st_represents)

lemma run_ops_st_represents: "represents (run_ops_st ops) (run_ops ops)"
  unfolding run_ops_st_def run_ops_def
  by (rule foldl_represents)
     (simp add: represents_def wf_empty_store valid_handle_def trie_of_def empty_trie_def)

lemma Get_st_represents:
  "represents (root, s) t \<Longrightarrow> Get_st T s root key = Get T t key"
  using Get_st_refines[of s root T key] by (auto simp add: represents_def)

lemma Put_st_unfold:
  "Put_st root K V s = (root', s') \<Longrightarrow>
   \<exists>r. root' = Some r \<and> PutHelper_st root K V s = (r, s')"
  by (auto simp add: Put_st_def split: prod.splits)

text \<open>
  \<^bold>\<open>Claim C9\<close> (structural sharing of Put). Let \<open>T1\<close> be a trie, given by a root handle
  into a well-formed store, and \<open>T2 = T1.Put(K, V)\<close>. Then
  \<^item> at most \<open>|K| + 1\<close> nodes are allocated;
  \<^item> no existing node changes, and every \<open>Get\<close> on \<open>T1\<close> returns what it returned before;
  \<^item> for every node of \<open>T1\<close> on the path of \<open>K\<close>, reached by a prefix \<open>P\<close> of \<open>K\<close>, the node of
    \<open>T2\<close> at \<open>P\<close> maps every byte other than the next byte of \<open>K\<close> to the same handle as
    the node of \<open>T1\<close> (every byte, when \<open>P\<close> is all of \<open>K\<close>);
  \<^item> the tree that the new root stands for is the one \<^const>\<open>Put\<close> computes on trees.

  Every root handle and store that a sequence of \<open>Put\<close> and \<open>Remove\<close> calls builds from the
  empty store satisfies the two hypotheses (lemma \<open>run_ops_st_represents\<close>).
\<close>

theorem Put_structural_sharing:
  assumes wf: "wf_store s" and v: "valid_handle s root"
    and put: "Put_st root K V s = (root', s')"
  shows "allocated s' - allocated s \<le> length K + 1
    \<and> (\<forall>a < allocated s. cells s' a = cells s a)
    \<and> (\<forall>T key. Get_st T s' root key = Get_st T s root key)
    \<and> (\<forall>P rest x. K = P @ rest \<longrightarrow> node_at s root P = Some x \<longrightarrow>
          (\<exists>x'. node_at s' root' P = Some x'
             \<and> (\<forall>b. rest = [] \<or> b \<noteq> hd rest \<longrightarrow>
                   map_of (cell_children (cells s' x')) b
                   = map_of (cell_children (cells s x)) b)))
    \<and> trie_of s' root' = Put (trie_of s root) K V"
proof -
  from Put_st_unfold[OF put] obtain r where r: "root' = Some r" "PutHelper_st root K V s = (r, s')"
    by blast
  note al = PutHelper_st_alloc[OF r(2)]
  have ext: "extends s s'" using al by simp
  have c1: "allocated s' - allocated s \<le> length K + 1" using al by simp
  have c2: "\<forall>a < allocated s. cells s' a = cells s a" using ext by (simp add: extends_def)
  have c3: "\<forall>T key. Get_st T s' root key = Get_st T s root key"
    using Get_st_extends[OF wf v ext] by simp
  have c4: "\<exists>x'. node_at s' root' P = Some x'
             \<and> (\<forall>b. rest = [] \<or> b \<noteq> hd rest \<longrightarrow>
                   map_of (cell_children (cells s' x')) b
                   = map_of (cell_children (cells s x)) b)"
    if k: "K = P @ rest" and n: "node_at s root P = Some x" for P rest x
  proof -
    from n obtain a0 where a0: "root = Some a0" "walk_st s a0 P = Some x"
      by (auto simp add: node_at_def split: option.splits)
    from v a0(1) have "a0 < allocated s" by (simp add: valid_handle_def)
    from PutHelper_st_sharing[OF wf this r(2)[unfolded a0(1) k] a0(2)]
    show ?thesis by (simp add: node_at_def r(1))
  qed
  have c5: "trie_of s' root' = Put (trie_of s root) K V"
    using PutHelper_st_refines[OF wf v r(2)] by (simp add: trie_of_def Put_def r(1))
  from c1 c2 c3 c4 c5 show ?thesis by blast
qed

theorem Put_structural_sharing_witness:
  "wf_store store_ab \<and> valid_handle store_ab (Some 2)
   \<and> allocated store_ab = 3
   \<and> fst (Put_st (Some 2) ''ac'' (V_string ''x'') store_ab) = Some 5
   \<and> allocated (snd (Put_st (Some 2) ''ac'' (V_string ''x'') store_ab)) - allocated store_ab
        \<le> length ''ac'' + 1
   \<and> allocated (snd (Put_st (Some 2) ''ac'' (V_string ''x'') store_ab)) = 6
   \<and> node_at store_ab (Some 2) ''a'' = Some 1
   \<and> node_at (snd (Put_st (Some 2) ''ac'' (V_string ''x'') store_ab)) (Some 5) ''a'' = Some 4
   \<and> map_of (cell_children (cells store_ab 1)) CHR ''b'' = Some 0
   \<and> map_of (cell_children (cells (snd (Put_st (Some 2) ''ac'' (V_string ''x'') store_ab)) 4))
        CHR ''b'' = Some 0"
proof -
  note ev = store_ab_def Put_st_def empty_store_def make_shared_def
    CreateNodeWithNewChildren_st_def
  have h1: "wf_store store_ab" by (simp add: wf_store_def ev)
  have h2: "valid_handle store_ab (Some 2)" by (simp add: valid_handle_def ev)
  have h3: "Put_st (Some 2) ''ac'' (V_string ''x'') store_ab
      = (fst (Put_st (Some 2) ''ac'' (V_string ''x'') store_ab),
         snd (Put_st (Some 2) ''ac'' (V_string ''x'') store_ab))"
    by simp
  have c1: "allocated (snd (Put_st (Some 2) ''ac'' (V_string ''x'') store_ab))
      - allocated store_ab \<le> length ''ac'' + 1"
    using Put_structural_sharing [OF h1 h2 h3] by (rule conjunct1)
  have e1: "allocated store_ab = 3" by (simp add: ev)
  have e2: "fst (Put_st (Some 2) ''ac'' (V_string ''x'') store_ab) = Some 5" by (simp add: ev)
  have e3: "allocated (snd (Put_st (Some 2) ''ac'' (V_string ''x'') store_ab)) = 6"
    by (simp add: ev)
  have e4: "node_at store_ab (Some 2) ''a'' = Some 1" by (simp add: node_at_def ev)
  have e5: "node_at (snd (Put_st (Some 2) ''ac'' (V_string ''x'') store_ab)) (Some 5) ''a''
      = Some 4"
    by (simp add: node_at_def ev)
  have e6: "map_of (cell_children (cells store_ab 1)) CHR ''b'' = Some 0" by (simp add: ev)
  have e7: "map_of (cell_children
      (cells (snd (Put_st (Some 2) ''ac'' (V_string ''x'') store_ab)) 4)) CHR ''b'' = Some 0"
    by (simp add: ev)
  show ?thesis by (intro conjI h1 h2 c1 e1 e2 e3 e4 e5 e6 e7)
qed

section \<open>Failure accounting of the test runner\<close>

lemma run_func_err: "fst (run_func body err) = fst (run_func body [])"
  by (induction body err rule: run_func.induct) auto

lemma assertion_fails_Returned: "assertion_fails body \<Longrightarrow> fst (run_func body err) = Returned"
  by (induction body err rule: run_func.induct) auto

lemma run_tests_failed:
  "failed (run_tests tests s) = failed s + int (length (filter (\<lambda>t. throws (func t)) tests))"
proof (induction tests arbitrary: s)
  case Nil
  show ?case by simp
next
  case (Cons t tests)
  obtain c err where r: "run_func (func t) (cerr s) = (c, err)" by (cases "run_func (func t) (cerr s)")
  then have c: "fst (run_func (func t) []) = c" using run_func_err[of "func t" "cerr s"] by simp
  show ?case
    using r c by (cases c) (simp_all add: Cons.IH throws_def Let_def)
qed

lemma run_tests_passed:
  "passed (run_tests tests s) = passed s + int (length (filter (\<lambda>t. \<not> throws (func t)) tests))"
proof (induction tests arbitrary: s)
  case Nil
  show ?case by simp
next
  case (Cons t tests)
  obtain c err where r: "run_func (func t) (cerr s) = (c, err)" by (cases "run_func (func t) (cerr s)")
  then have c: "fst (run_func (func t) []) = c" using run_func_err[of "func t" "cerr s"] by simp
  show ?case
    using r c by (cases c) (simp_all add: Cons.IH throws_def Let_def)
qed

lemma exit_status_counts_throws: "fst (RUN_ALL_TESTS tests) = int (length (filter (\<lambda>t. throws (func t)) tests))"
  by (simp add: RUN_ALL_TESTS_def Let_def run_tests_failed)

lemma assertion_fails_not_throws: "assertion_fails body \<Longrightarrow> \<not> throws body"
  by (simp add: throws_def assertion_fails_Returned)

text \<open>
  \<^bold>\<open>Claim C3\<close> (failure accounting). The claim asks that a test in which an assertion
  fails be recorded as a failure and that the exit status be the number of failed tests.
  The runner counts a failure only in its two exception handlers: by
  \<open>exit_status_counts_throws\<close> the exit status is the number of tests that ended by an
  exception, and by \<open>assertion_fails_not_throws\<close> a test whose assertion fails is not
  among them. The run below is the smallest one that shows it: a single test whose only
  statement is a failing \<^verbatim>\<open>ASSERT_TRUE\<close> writes its failure line to \<^verbatim>\<open>std::cerr\<close>, is then
  reported \<^verbatim>\<open>OK\<close> and counted as passed, and the exit status is 0.
\<close>

theorem RUN_ALL_TESTS_failed_assertion_passes:
  "RUN_ALL_TESTS [\<lparr>name = ''TrieTest.Basic'', func = [ASSERT_TRUE ''1 == 2'' False]\<rparr>]
   = (0, \<lparr>passed = 1, failed = 0,
         cout = [RUN ''TrieTest.Basic'', OK ''TrieTest.Basic'', PASSED_tests 1],
         cerr = [Failure_ASSERT_TRUE ''1 == 2'']\<rparr>)"
  by (simp add: RUN_ALL_TESTS_def)

end
